theory Spec2Isabelle
  imports Complex_Main "HOL-Library.AList"
begin

section \<open>Python values used by the source mapper\<close>

text \<open>
  A Python \<open>str\<close> is a sequence of Unicode code points. The escape table of the mapper
  holds characters beyond one byte (U+0152, U+0153), so a character is its code point,
  a natural number, and a string is a list of them. \<open>ustr\<close> reads an ASCII literal.
\<close>

type_synonym ustring = "nat list"

definition ustr :: "string \<Rightarrow> ustring" where
  "ustr s = map of_char s"

text \<open>The exceptions the mapper can raise.\<close>

datatype error = IndexError | TypeError | KeyError | ValueError | AttributeError | RecursionError

text \<open>
  \<open>str.isspace\<close> on a one-character string: the code points whose general category is
  Zs or whose bidirectional class is WS, B or S.
\<close>

definition isspace :: "nat \<Rightarrow> bool" where
  "isspace c \<longleftrightarrow>
     (9 \<le> c \<and> c \<le> 13) \<or> (28 \<le> c \<and> c \<le> 32) \<or> c = 133 \<or> c = 160 \<or> c = 5760 \<or>
     (8192 \<le> c \<and> c \<le> 8202) \<or> c = 8232 \<or> c = 8233 \<or> c = 8239 \<or> c = 8287 \<or> c = 12288"

text \<open>
  \<open>xs[i]\<close>: a negative index counts from the end, an index out of range raises
  IndexError.
\<close>

definition py_getitem :: "'a list \<Rightarrow> int \<Rightarrow> error + 'a" where
  "py_getitem xs i =
     (let n = int (length xs); j = (if i < 0 then i + n else i)
      in if 0 \<le> j \<and> j < n then Inr (xs ! nat j) else Inl IndexError)"

text \<open>
  Slice bounds: \<open>clamp_index\<close> is the adjustment of \<open>xs[a:b]\<close> (both bounds end in
  \<open>0..len\<close>); \<open>find_start\<close> and \<open>find_end\<close> are the adjustment \<open>str.find\<close>,
  \<open>str.rfind\<close> and \<open>str.startswith\<close> make (the start is not clamped from above, so a
  start beyond the end finds nothing, not even the empty string). \<open>None\<close> is an omitted
  bound.
\<close>

definition clamp_index :: "nat \<Rightarrow> int \<Rightarrow> nat" where
  "clamp_index n i = (if i < 0 then nat (i + int n) else min (nat i) n)"

definition py_slice :: "'a list \<Rightarrow> int \<Rightarrow> int \<Rightarrow> 'a list" where
  "py_slice xs a b =
     (let s = clamp_index (length xs) a; e = clamp_index (length xs) b
      in take (e - s) (drop s xs))"

definition py_slice_from :: "'a list \<Rightarrow> int \<Rightarrow> 'a list" where
  "py_slice_from xs a = drop (clamp_index (length xs) a) xs"

definition find_start :: "nat \<Rightarrow> int option \<Rightarrow> nat" where
  "find_start n start =
     (case start of None \<Rightarrow> 0 | Some s \<Rightarrow> if s < 0 then nat (s + int n) else nat s)"

definition find_end :: "nat \<Rightarrow> int option \<Rightarrow> nat" where
  "find_end n end = (case end of None \<Rightarrow> n | Some e \<Rightarrow> clamp_index n e)"

definition occurs_at :: "ustring \<Rightarrow> ustring \<Rightarrow> nat \<Rightarrow> bool" where
  "occurs_at text sub i \<longleftrightarrow> take (length sub) (drop i text) = sub"

definition candidates :: "ustring \<Rightarrow> ustring \<Rightarrow> int option \<Rightarrow> int option \<Rightarrow> nat list" where
  "candidates text sub start end =
     (let s = find_start (length text) start; e = find_end (length text) end
      in if s + length sub \<le> e then [s ..< Suc (e - length sub)] else [])"

definition py_find :: "ustring \<Rightarrow> ustring \<Rightarrow> int option \<Rightarrow> int option \<Rightarrow> int" where
  "py_find text sub start end =
     (case List.find (occurs_at text sub) (candidates text sub start end) of
        None \<Rightarrow> -1 | Some i \<Rightarrow> int i)"

definition py_rfind :: "ustring \<Rightarrow> ustring \<Rightarrow> int option \<Rightarrow> int option \<Rightarrow> int" where
  "py_rfind text sub start end =
     (case List.find (occurs_at text sub) (rev (candidates text sub start end)) of
        None \<Rightarrow> -1 | Some i \<Rightarrow> int i)"

definition py_startswith :: "ustring \<Rightarrow> ustring \<Rightarrow> int \<Rightarrow> bool" where
  "py_startswith text prefix start =
     (let s = find_start (length text) (Some start)
      in s + length prefix \<le> length text \<and> occurs_at text prefix s)"

text \<open>\<open>s.split()\<close>: the maximal runs of non-whitespace characters.\<close>

fun py_split_acc :: "ustring \<Rightarrow> ustring \<Rightarrow> ustring list" where
  "py_split_acc word [] = (if word = [] then [] else [word])"
| "py_split_acc word (c # cs) =
     (if isspace c then (if word = [] then py_split_acc [] cs else word # py_split_acc [] cs)
      else py_split_acc (word @ [c]) cs)"

definition py_split :: "ustring \<Rightarrow> ustring list" where
  "py_split s = py_split_acc [] s"

section \<open>Line utilities\<close>

definition newline :: nat where
  "newline = 10"

definition get_line :: "ustring \<Rightarrow> int \<Rightarrow> int \<times> int" where
  "get_line text index =
     (let start_line = py_rfind text [newline] (Some 0) (Some index) + 1;
          end_line = py_find text [newline] (Some start_line) None;
          end_line = (if end_line < 0 then int (length text) else end_line)
      in (start_line, end_line))"

definition get_line_before :: "ustring \<Rightarrow> int \<Rightarrow> int \<times> int" where
  "get_line_before text index =
     (let index = max (fst (get_line text index) - 1) 0 in get_line text index)"

definition get_line_after :: "ustring \<Rightarrow> int \<Rightarrow> int \<times> int" where
  "get_line_after text index =
     (let index = min (snd (get_line text index) + 1) (int (length text) - 1)
      in get_line text index)"

section \<open>Regular expressions\<close>

text \<open>
  The fragment of Python's \<open>re\<close> the mapper's patterns use: literal characters,
  character classes over single characters and \<open>\s\<close>, greedy repetition of a class
  with bounds, alternation, and the anchors \<open>^\<close> and \<open>$\<close>. \<open>rx_ends\<close> lists the
  positions a match starting at a position can end at, in the order the backtracking
  matcher tries them; the first one is the match \<open>re\<close> reports.
\<close>

datatype citem = CChar nat | CSpace

datatype cclass = Cls bool "citem list"

fun in_item :: "nat \<Rightarrow> citem \<Rightarrow> bool" where
  "in_item c (CChar d) = (c = d)"
| "in_item c CSpace = isspace c"

fun in_class :: "cclass \<Rightarrow> nat \<Rightarrow> bool" where
  "in_class (Cls negated items) c = (list_ex (in_item c) items \<noteq> negated)"

datatype rx =
    Lit nat
  | Rep cclass nat "nat option"
  | Seq rx rx
  | Alt rx rx
  | Bol
  | Eol

text \<open>The length of the longest run of class characters at the head of a string.\<close>

definition run_length :: "cclass \<Rightarrow> ustring \<Rightarrow> nat" where
  "run_length cls s = length (takeWhile (in_class cls) s)"

fun rx_ends :: "bool \<Rightarrow> rx \<Rightarrow> ustring \<Rightarrow> nat \<Rightarrow> nat list" where
  "rx_ends multiline (Lit c) s pos =
     (if pos < length s \<and> s ! pos = c then [Suc pos] else [])"
| "rx_ends multiline (Rep cls lo hi) s pos =
     (let n = run_length cls (drop pos s);
          n = (case hi of None \<Rightarrow> n | Some h \<Rightarrow> min n h)
      in if lo \<le> n then map (\<lambda>k. pos + k) (rev [lo ..< Suc n]) else [])"
| "rx_ends multiline (Seq a b) s pos = concat (map (rx_ends multiline b s) (rx_ends multiline a s pos))"
| "rx_ends multiline (Alt a b) s pos = rx_ends multiline a s pos @ rx_ends multiline b s pos"
| "rx_ends multiline Bol s pos =
     (if pos = 0 \<or> (multiline \<and> pos \<le> length s \<and> s ! (pos - 1) = newline) then [pos] else [])"
| "rx_ends multiline Eol s pos =
     (if pos = length s \<or> (Suc pos = length s \<and> s ! pos = newline)
         \<or> (multiline \<and> pos < length s \<and> s ! pos = newline)
      then [pos] else [])"

text \<open>\<open>pattern.match(s)\<close>: the end of the match at position 0, if there is one.\<close>

definition re_match :: "rx \<Rightarrow> ustring \<Rightarrow> nat option" where
  "re_match r s = (case rx_ends False r s 0 of [] \<Rightarrow> None | e # _ \<Rightarrow> Some e)"

text \<open>\<open>re.search(r, s, re.MULTILINE)\<close>: the start of the leftmost match.\<close>

definition re_search_multiline :: "rx \<Rightarrow> ustring \<Rightarrow> nat option" where
  "re_search_multiline r s = List.find (\<lambda>p. rx_ends True r s p \<noteq> []) [0 ..< Suc (length s)]"

fun rx_literal :: "ustring \<Rightarrow> rx \<Rightarrow> rx" where
  "rx_literal [] r = r"
| "rx_literal (c # cs) r = Seq (Lit c) (rx_literal cs r)"

text \<open>The mapper's patterns.\<close>

definition code_block_delim :: rx where
  \<comment> \<open>\<^verbatim>\<open>^\s{0,3}[`~]{3,}\<close>\<close>
  "code_block_delim =
     Seq Bol (Seq (Rep (Cls False [CSpace]) 0 (Some 3))
                  (Rep (Cls False [CChar 96, CChar 126]) 3 None))"

definition header_setext_delim :: rx where
  \<comment> \<open>\<^verbatim>\<open>^\s{0,3}(?:-+|=+)\s*$\<close>\<close>
  "header_setext_delim =
     Seq Bol (Seq (Rep (Cls False [CSpace]) 0 (Some 3))
       (Seq (Alt (Rep (Cls False [CChar 45]) 1 None) (Rep (Cls False [CChar 61]) 1 None))
         (Seq (Rep (Cls False [CSpace]) 0 None) Eol)))"

definition table_delim :: rx where
  \<comment> \<open>\<^verbatim>\<open>^\s{0,3}(?:[-\s]+|[-+:]+)\s*$\<close>\<close>
  "table_delim =
     Seq Bol (Seq (Rep (Cls False [CSpace]) 0 (Some 3))
       (Seq (Alt (Rep (Cls False [CChar 45, CSpace]) 1 None)
                 (Rep (Cls False [CChar 45, CChar 43, CChar 58]) 1 None))
         (Seq (Rep (Cls False [CSpace]) 0 None) Eol)))"

definition footnote_identifier :: rx where
  \<comment> \<open>\<^verbatim>\<open>\[\^[^\s]+\]\<close>\<close>
  "footnote_identifier =
     Seq (Lit 91) (Seq (Lit 94) (Seq (Rep (Cls True [CSpace]) 1 None) (Lit 93)))"

definition footnote_definition :: "ustring \<Rightarrow> rx" where
  \<comment> \<open>\<^verbatim>\<open>"^\\s{{0,3}}{}: ".format(re.escape(identifier))\<close>\<close>
  "footnote_definition identifier =
     Seq Bol (Seq (Rep (Cls False [CSpace]) 0 (Some 3)) (rx_literal identifier (Seq (Lit 58) (Lit 32))))"

definition smallcaps_delims :: "(ustring \<times> ustring) list" where
  "smallcaps_delims = [(ustr ''['', ustr '']{.smallcaps}''), (ustr ''<span '', ustr ''</span>'')]"

definition citation_delims :: "nat \<times> nat" where
  "citation_delims = (91, 93)"

definition math_delims :: "(ustring \<times> ustring) list" where
  "math_delims = [(ustr ''DisplayMath'', ustr ''$$''), (ustr ''InlineMath'', ustr ''$'')]"

section \<open>The parse tree and the results\<close>

text \<open>
  The values \<open>json.loads\<close> produces: the parse tree is one of them, every node a
  dictionary with the keys \<open>t\<close> and \<open>c\<close>. A dictionary is the list of its items in
  insertion order, its keys distinct. The values of a result's \<open>extras\<close> are of the same
  shapes.
\<close>

datatype json =
    JNull
  | JBool bool
  | JInt int
  | JFloat real
  | JStr ustring
  | JArr "json list"
  | JObj "(ustring \<times> json) list"

type_synonym dict = "(ustring \<times> json) list"

record result =
  result_type :: ustring
  result_start :: int
  result_end :: int
  result_extras :: dict

datatype warning = UnknownType json | InvalidResult result

text \<open>The mapper's mutable state: the results appended so far and the warnings emitted.\<close>

record mapper =
  mapper_results :: "result list"
  mapper_warnings :: "warning list"

type_synonym span = "int \<times> int \<times> dict"

type_synonym 'a walked = "error + ('a \<times> mapper)"

type_synonym walker = "int \<Rightarrow> json \<Rightarrow> mapper \<Rightarrow> (result option) walked"

definition warn :: "warning \<Rightarrow> mapper \<Rightarrow> mapper" where
  "warn w st = st\<lparr>mapper_warnings := mapper_warnings st @ [w]\<rparr>"

text \<open>Python's operations on such values, with the exceptions they raise.\<close>

fun py_iter :: "json \<Rightarrow> error + json list" where
  "py_iter (JArr xs) = Inr xs"
| "py_iter (JStr s) = Inr (map (\<lambda>c. JStr [c]) s)"
| "py_iter (JObj kvs) = Inr (map (\<lambda>kv. JStr (fst kv)) kvs)"
| "py_iter _ = Inl TypeError"

fun getitem_str :: "json \<Rightarrow> ustring \<Rightarrow> error + json" where
  "getitem_str (JObj kvs) k = (case map_of kvs k of None \<Rightarrow> Inl KeyError | Some v \<Rightarrow> Inr v)"
| "getitem_str _ k = Inl TypeError"

fun getitem_int :: "json \<Rightarrow> int \<Rightarrow> error + json" where
  "getitem_int (JArr xs) i = py_getitem xs i"
| "getitem_int (JStr s) i = (case py_getitem s i of Inl e \<Rightarrow> Inl e | Inr c \<Rightarrow> Inr (JStr [c]))"
| "getitem_int (JObj kvs) i = Inl KeyError"
| "getitem_int _ i = Inl TypeError"

fun dict_get :: "json \<Rightarrow> ustring \<Rightarrow> error + json" where
  "dict_get (JObj kvs) k = (case map_of kvs k of None \<Rightarrow> Inr JNull | Some v \<Rightarrow> Inr v)"
| "dict_get _ k = Inl AttributeError"

fun truthy :: "json \<Rightarrow> bool" where
  "truthy JNull = False"
| "truthy (JBool b) = b"
| "truthy (JInt n) = (n \<noteq> 0)"
| "truthy (JFloat x) = (x \<noteq> 0)"
| "truthy (JStr s) = (s \<noteq> [])"
| "truthy (JArr xs) = (xs \<noteq> [])"
| "truthy (JObj kvs) = (kvs \<noteq> [])"

text \<open>Whether a value can be looked up in a dictionary: lists and dictionaries are unhashable.\<close>

fun hashable :: "json \<Rightarrow> bool" where
  "hashable (JArr xs) = False"
| "hashable (JObj kvs) = False"
| "hashable t = True"

fun as_str :: "error \<Rightarrow> json \<Rightarrow> error + ustring" where
  "as_str e (JStr s) = Inr s"
| "as_str e _ = Inl e"

text \<open>
  Unpacking: \<open>a, b = x\<close> raises ValueError on a wrong count, \<open>fn(index, *x)\<close> raises
  TypeError on one; both raise TypeError when \<open>x\<close> cannot be iterated.
\<close>

definition unpack2 :: "error \<Rightarrow> json \<Rightarrow> error + (json \<times> json)" where
  "unpack2 e x =
     (case py_iter x of Inl err \<Rightarrow> Inl err
      | Inr xs \<Rightarrow> (case xs of [a, b] \<Rightarrow> Inr (a, b) | _ \<Rightarrow> Inl e))"

definition unpack3 :: "error \<Rightarrow> json \<Rightarrow> error + (json \<times> json \<times> json)" where
  "unpack3 e x =
     (case py_iter x of Inl err \<Rightarrow> Inl err
      | Inr xs \<Rightarrow> (case xs of [a, b, c] \<Rightarrow> Inr (a, b, c) | _ \<Rightarrow> Inl e))"

definition unpack5 :: "error \<Rightarrow> json \<Rightarrow> error + (json \<times> json \<times> json \<times> json \<times> json)" where
  "unpack5 e x =
     (case py_iter x of Inl err \<Rightarrow> Inl err
      | Inr xs \<Rightarrow> (case xs of [a, b, c, d, f] \<Rightarrow> Inr (a, b, c, d, f) | _ \<Rightarrow> Inl e))"

section \<open>Text locator\<close>

text \<open>
  \<open>escape_table\<close>, in the order the dictionary literal lists it (the order the search
  iterates its keys in): the backslash escapes, the space that stands for a non-breaking
  space, and the entities. Keys and values are strings; every value is one character.
\<close>

definition backslash_escapes :: "(ustring \<times> ustring) list" where
  "backslash_escapes =
     map (\<lambda>c. ([92, c], [c]))
       [92, 96, 42, 95, 123, 125, 91, 93, 40, 41, 35, 43, 45, 46, 33, 126, 34, 60, 62, 10]"

definition entities :: "(ustring \<times> ustring) list" where
  "entities =
     [(ustr ''&amp;'', [38]), (ustr ''&lt;'', [60]), (ustr ''&gt;'', [62]),
      (ustr ''&nbsp;'', [32]), (ustr ''&iexcl;'', [161]), (ustr ''&cent;'', [162]),
      (ustr ''&pound;'', [163]), (ustr ''&curren;'', [164]), (ustr ''&yen;'', [165]),
      (ustr ''&brvbar;'', [166]), (ustr ''&sect;'', [167]), (ustr ''&uml;'', [168]),
      (ustr ''&copy;'', [169]), (ustr ''&ordf;'', [170]), (ustr ''&laquo;'', [171]),
      (ustr ''&not;'', [172]), (ustr ''&shy;'', [173]), (ustr ''&reg;'', [174]),
      (ustr ''&macr;'', [175]), (ustr ''&deg;'', [176]), (ustr ''&plusmn;'', [177]),
      (ustr ''&sup2;'', [178]), (ustr ''&sup3;'', [179]), (ustr ''&acute;'', [180]),
      (ustr ''&micro;'', [181]), (ustr ''&para;'', [182]), (ustr ''&middot;'', [183]),
      (ustr ''&cedil;'', [184]), (ustr ''&sup1;'', [185]), (ustr ''&ordm;'', [186]),
      (ustr ''&raquo;'', [187]), (ustr ''&frac14;'', [188]), (ustr ''&frac12;'', [189]),
      (ustr ''&frac34;'', [190]), (ustr ''&iquest;'', [191]), (ustr ''&times;'', [215]),
      (ustr ''&divide;'', [247]), (ustr ''&ETH;'', [208]), (ustr ''&eth;'', [240]),
      (ustr ''&THORN;'', [222]), (ustr ''&thorn;'', [254]), (ustr ''&AElig;'', [198]),
      (ustr ''&aelig;'', [230]), (ustr ''&OElig;'', [338]), (ustr ''&oelig;'', [339]),
      (ustr ''&Aring;'', [197]), (ustr ''&Oslash;'', [216]), (ustr ''&Ccedil;'', [199]),
      (ustr ''&ccedil;'', [231]), (ustr ''&szlig;'', [223]), (ustr ''&Ntilde;'', [209]),
      (ustr ''&ntilde;'', [241])]"

definition escape_table :: "(ustring \<times> ustring) list" where
  "escape_table = backslash_escapes @ [([32], [160])] @ entities"

definition escape_table_keys :: "ustring list" where
  "escape_table_keys = map fst escape_table"

definition escape_table_values :: "ustring list" where
  "escape_table_values = map snd escape_table"

text \<open>\<open>__find\<close>: plain substring search.\<close>

definition find_text :: "ustring \<Rightarrow> ustring \<Rightarrow> int option \<Rightarrow> int option \<Rightarrow> int \<times> int" where
  "find_text text sub start end =
     (let start = py_find text sub start end
      in if start \<ge> 0 then (start, start + int (length sub)) else (start, start))"

text \<open>
  The key loop of the escape-aware search: the length of the first key of the table, in
  its order, that the rest of the text starts with; \<open>-1\<close> when there is none.
\<close>

fun first_key_len :: "ustring list \<Rightarrow> ustring \<Rightarrow> int" where
  "first_key_len [] rest = -1"
| "first_key_len (c # cs) rest =
     (if py_startswith rest c 0 then int (length c) else first_key_len cs rest)"

text \<open>The \<open>increment\<close> one pass of the loop computes at position \<open>i\<close>.\<close>

definition increment_at :: "ustring \<Rightarrow> ustring \<Rightarrow> int \<Rightarrow> int \<Rightarrow> int \<Rightarrow> error + int" where
  "increment_at text sub index start_match i =
     (case py_getitem text i of
        Inl e \<Rightarrow> Inl e
      | Inr ti \<Rightarrow>
          (case py_getitem sub index of
             Inl e \<Rightarrow> Inl e
           | Inr si \<Rightarrow>
               if ti = si then Inr 1
               else if start_match \<noteq> -1 \<and> ti = 13 then Inr 0
               else if [si] \<in> set escape_table_values
                 then Inr (first_key_len escape_table_keys (py_slice_from text i))
               else Inr (-1)))"

function find_unescaped_loop ::
  "ustring \<Rightarrow> ustring \<Rightarrow> int \<Rightarrow> int \<Rightarrow> int \<Rightarrow> int \<Rightarrow> error + (int \<times> int)" where
  "find_unescaped_loop text sub end index start_match i =
     (if i < end then
        (case increment_at text sub index start_match i of
           Inl e \<Rightarrow> Inl e
         | Inr increment \<Rightarrow>
             if increment > 0 then
               (let index = index + 1;
                    start_match = (if start_match = -1 then i else start_match)
                in if index = int (length sub) then Inr (start_match, i + increment)
                   else find_unescaped_loop text sub end index start_match
                          (i + max 1 increment))
             else if increment < 0 \<and> start_match \<ge> 0 then
               find_unescaped_loop text sub end 0 (-1) (start_match + max 1 increment)
             else find_unescaped_loop text sub end index start_match (i + max 1 increment))
      else Inr (-1, -1))"
  by pat_completeness auto
termination
  by (relation "measures
        [\<lambda>(text, sub, e, index, start_match, i).
            nat (e - (if start_match \<ge> 0 then start_match else i)),
         \<lambda>(text, sub, e, index, start_match, i). nat (e - i)]")
     (auto split: if_splits)

declare find_unescaped_loop.simps [simp del]

definition find_unescaped ::
  "ustring \<Rightarrow> ustring \<Rightarrow> int option \<Rightarrow> int option \<Rightarrow> error + (int \<times> int)" where
  "find_unescaped text sub start end =
     (let start = (case start of None \<Rightarrow> 0 | Some s \<Rightarrow> s);
          end = (case end of None \<Rightarrow> int (length text) | Some e \<Rightarrow> e)
      in if start > end \<or> start < 0 \<or> end > int (length text) then Inr (-1, -1)
         else if sub = [] then Inr (start, start)
         else find_unescaped_loop text sub end 0 (-1) start)"

section \<open>Tree walker\<close>

text \<open>Types where leading and trailing spaces are not expected, and types that span whole lines.\<close>

definition non_spaced_types :: "ustring list" where
  "non_spaced_types =
     map ustr [''Str'', ''Emph'', ''Strong'', ''Strikeout'', ''Superscript'', ''Subscript'',
               ''SmallCaps'', ''Quoted'', ''Cite'', ''Code'', ''Math'', ''RawInline'', ''Link'',
               ''Image'', ''Note'', ''Span'']"

definition paragraph_types :: "ustring list" where
  "paragraph_types =
     map ustr [''Para'', ''LineBlock'', ''CodeBlock'', ''BlockQuote'', ''OrderedList'',
               ''BulletList'', ''DefinitionList'', ''Header'', ''HorizontalRule'', ''Table'',
               ''Div'']"

text \<open>
  The scanning loops over the text. Each reads \<open>self.text[...]\<close> with no bounds check,
  so each can raise IndexError.
\<close>

function advance_while_space :: "ustring \<Rightarrow> int \<Rightarrow> error + int" where
  \<comment> \<open>\<^verbatim>\<open>while self.text[i].isspace(): i += 1\<close>\<close>
  "advance_while_space text i =
     (case py_getitem text i of
        Inl e \<Rightarrow> Inl e
      | Inr c \<Rightarrow> if isspace c then advance_while_space text (i + 1) else Inr i)"
  by pat_completeness auto
termination
  by (relation "measure (\<lambda>(text, i). nat (int (length text) - i))")
     (auto simp: py_getitem_def Let_def split: if_splits)

declare advance_while_space.simps [simp del]

function advance_until_space :: "ustring \<Rightarrow> int \<Rightarrow> error + int" where
  \<comment> \<open>\<^verbatim>\<open>while not self.text[i].isspace(): i += 1\<close>\<close>
  "advance_until_space text i =
     (case py_getitem text i of
        Inl e \<Rightarrow> Inl e
      | Inr c \<Rightarrow> if \<not> isspace c then advance_until_space text (i + 1) else Inr i)"
  by pat_completeness auto
termination
  by (relation "measure (\<lambda>(text, i). nat (int (length text) - i))")
     (auto simp: py_getitem_def Let_def split: if_splits)

declare advance_until_space.simps [simp del]

function retreat_while_space :: "ustring \<Rightarrow> int \<Rightarrow> error + int" where
  \<comment> \<open>\<^verbatim>\<open>while self.text[i - 1].isspace(): i -= 1\<close>\<close>
  "retreat_while_space text i =
     (case py_getitem text (i - 1) of
        Inl e \<Rightarrow> Inl e
      | Inr c \<Rightarrow> if isspace c then retreat_while_space text (i - 1) else Inr i)"
  by pat_completeness auto
termination
  by (relation "measure (\<lambda>(text, i). nat (int (length text) + i))")
     (auto simp: py_getitem_def Let_def split: if_splits)

declare retreat_while_space.simps [simp del]

function retreat_to :: "ustring \<Rightarrow> nat \<Rightarrow> int \<Rightarrow> error + int" where
  \<comment> \<open>\<^verbatim>\<open>while i >= 0 and self.text[i] != c: i -= 1\<close>\<close>
  "retreat_to text c i =
     (if i \<ge> 0 then
        (case py_getitem text i of
           Inl e \<Rightarrow> Inl e
         | Inr x \<Rightarrow> if x \<noteq> c then retreat_to text c (i - 1) else Inr i)
      else Inr i)"
  by pat_completeness auto
termination
  by (relation "measure (\<lambda>(text, c, i). nat (i + 1))") auto

declare retreat_to.simps [simp del]

function advance_past :: "ustring \<Rightarrow> nat \<Rightarrow> int \<Rightarrow> error + int" where
  \<comment> \<open>\<^verbatim>\<open>while self.text[i - 1] != c: i += 1\<close>\<close>
  "advance_past text c i =
     (case py_getitem text (i - 1) of
        Inl e \<Rightarrow> Inl e
      | Inr x \<Rightarrow> if x \<noteq> c then advance_past text c (i + 1) else Inr i)"
  by pat_completeness auto
termination
  by (relation "measure (\<lambda>(text, c, i). nat (int (length text) + 1 - i))")
     (auto simp: py_getitem_def Let_def split: if_splits)

declare advance_past.simps [simp del]

definition content_extras :: "int \<Rightarrow> int \<Rightarrow> dict" where
  "content_extras start end =
     [(ustr ''content_start'', JInt start), (ustr ''content_end'', JInt end)]"

subsection \<open>Walkers that only read the text\<close>

definition walk_nothing :: "int \<Rightarrow> error + span" where
  "walk_nothing index = Inr (index, index, [])"

definition walk_str :: "ustring \<Rightarrow> int \<Rightarrow> json \<Rightarrow> error + span" where
  "walk_str text index string =
     (case as_str TypeError string of
        Inl e \<Rightarrow> Inl e
      | Inr s \<Rightarrow>
          if py_startswith text s index then Inr (index, index + int (length s), [])
          else (case find_unescaped text s (Some index) None of
                  Inl e \<Rightarrow> Inl e
                | Inr (start, end) \<Rightarrow> Inr (start, end, [])))"

definition walk_spaces :: "ustring \<Rightarrow> int \<Rightarrow> error + span" where
  "walk_spaces text index =
     (case advance_until_space text index of
        Inl e \<Rightarrow> Inl e
      | Inr start \<Rightarrow>
          (case advance_while_space text start of
             Inl e \<Rightarrow> Inl e
           | Inr end \<Rightarrow> Inr (start, end, [])))"

text \<open>
  The loop of \<open>walk_code\<close> and \<open>walk_code_block\<close>: locate each whitespace-delimited
  token after the previous one; the start is the first token's.
\<close>

fun find_each :: "ustring \<Rightarrow> nat \<Rightarrow> ustring list \<Rightarrow> int \<Rightarrow> int \<Rightarrow> int \<times> int" where
  "find_each text i [] start end = (start, end)"
| "find_each text i (line # lines) start end =
     (let (s, end) = find_text text line (Some end) None
      in find_each text (Suc i) lines (if i = 0 then s else start) end)"

definition walk_code :: "ustring \<Rightarrow> int \<Rightarrow> json \<Rightarrow> error + span" where
  "walk_code text index string =
     (case as_str AttributeError string of
        Inl e \<Rightarrow> Inl e
      | Inr s \<Rightarrow>
          (let (start, end) = find_each text 0 (py_split s) index index
           in Inr (start - 1, end + 1, content_extras start end)))"

definition walk_code_block :: "ustring \<Rightarrow> int \<Rightarrow> json \<Rightarrow> json \<Rightarrow> error + span" where
  "walk_code_block text index attr string =
     (case as_str AttributeError string of
        Inl e \<Rightarrow> Inl e
      | Inr s \<Rightarrow>
          (let (content_start, content_end) = find_each text 0 (py_split s) index index;
               (line_before_start, line_before_end) = get_line_before text content_start;
               (line_after_start, line_after_end) = get_line_after text content_end
           in if re_match code_block_delim (py_slice text line_before_start line_before_end) \<noteq> None
                 \<and> re_match code_block_delim (py_slice text line_after_start line_after_end) \<noteq> None
              then Inr (line_before_start, line_after_end, content_extras content_start content_end)
              else Inr (content_start, content_end, content_extras content_start content_end)))"

definition walk_horizontal_rule :: "ustring \<Rightarrow> int \<Rightarrow> error + span" where
  "walk_horizontal_rule text index =
     (case advance_while_space text index of
        Inl e \<Rightarrow> Inl e
      | Inr index \<Rightarrow>
          (let (start, end) = get_line text index
           in case advance_while_space text start of
                Inl e \<Rightarrow> Inl e
              | Inr start \<Rightarrow>
                  (case retreat_while_space text end of
                     Inl e \<Rightarrow> Inl e
                   | Inr end \<Rightarrow> Inr (start, end, content_extras start end))))"

definition math_padding :: "json \<Rightarrow> error + int" where
  \<comment> \<open>\<^verbatim>\<open>len(self.math_delims[math_type["t"]])\<close>\<close>
  "math_padding math_type =
     (case getitem_str math_type (ustr ''t'') of
        Inl e \<Rightarrow> Inl e
      | Inr t \<Rightarrow>
          (case t of
             JArr _ \<Rightarrow> Inl TypeError
           | JObj _ \<Rightarrow> Inl TypeError
           | JStr k \<Rightarrow> (case map_of math_delims k of
                          None \<Rightarrow> Inl KeyError
                        | Some d \<Rightarrow> Inr (int (length d)))
           | _ \<Rightarrow> Inl KeyError))"

definition walk_math :: "ustring \<Rightarrow> int \<Rightarrow> json \<Rightarrow> json \<Rightarrow> error + span" where
  "walk_math text index math_type string =
     (case as_str TypeError string of
        Inl e \<Rightarrow> Inl e
      | Inr s \<Rightarrow>
          (let (start, end) = find_text text s (Some index) None
           in case math_padding math_type of
                Inl e \<Rightarrow> Inl e
              | Inr padding \<Rightarrow>
                  Inr (start - padding, end + padding, content_extras start end)))"

text \<open>
  The citation loop of \<open>walk_cite\<close>: the state is the overall start and end, the start
  of the last citation found, \<open>capture_brackets\<close> and the list of citation spans.
\<close>

fun cite_loop ::
  "ustring \<Rightarrow> nat \<Rightarrow> json list \<Rightarrow> int \<Rightarrow> int \<Rightarrow> int \<Rightarrow> bool \<Rightarrow> json list \<Rightarrow>
   error + (int \<times> int \<times> bool \<times> json list)" where
  "cite_loop text i [] start end citation_start capture_brackets extras_citations =
     Inr (start, end, capture_brackets, extras_citations)"
| "cite_loop text i (citation # citations) start end citation_start capture_brackets extras_citations =
     (case getitem_str citation (ustr ''citationId'') of
        Inl e \<Rightarrow> Inl e
      | Inr cid \<Rightarrow>
          (case as_str TypeError cid of
             Inl e \<Rightarrow> Inl e
           | Inr cid \<Rightarrow>
               (let (citation_start, citation_end) =
                      find_text text (ustr ''@'' @ cid) (Some citation_start) None
                in case getitem_str citation (ustr ''citationMode'') of
                     Inl e \<Rightarrow> Inl e
                   | Inr mode \<Rightarrow>
                       (case getitem_str mode (ustr ''t'') of
                          Inl e \<Rightarrow> Inl e
                        | Inr t \<Rightarrow>
                            cite_loop text (Suc i) citations
                              (if i = 0 then citation_start else start) citation_end citation_start
                              (capture_brackets \<and> t \<noteq> JStr (ustr ''AuthorInText''))
                              (extras_citations @
                                 [JObj [(ustr ''start'', JInt citation_start),
                                        (ustr ''end'', JInt citation_end)]])))))"

definition walk_cite :: "ustring \<Rightarrow> int \<Rightarrow> json \<Rightarrow> json \<Rightarrow> error + span" where
  "walk_cite text index citations bibliography_entries =
     (case py_iter citations of
        Inl e \<Rightarrow> Inl e
      | Inr cs \<Rightarrow>
          (case cite_loop text 0 cs index index index True [] of
             Inl e \<Rightarrow> Inl e
           | Inr (start, end, capture_brackets, extras_citations) \<Rightarrow>
               if start \<noteq> end \<and> capture_brackets then
                 (case retreat_to text (fst citation_delims) start of
                    Inl e \<Rightarrow> Inl e
                  | Inr start \<Rightarrow>
                      (case advance_past text (snd citation_delims) end of
                         Inl e \<Rightarrow> Inl e
                       | Inr end \<Rightarrow>
                           Inr (start, end, [(ustr ''citations'', JArr extras_citations)])))
               else Inr (start, end, [(ustr ''citations'', JArr extras_citations)])))"

subsection \<open>Walkers that descend into the tree\<close>

text \<open>
  The walkers below call back into \<open>walk_one\<close>. The recursion is tied through the
  parameter \<open>w\<close>: the dispatcher for the nodes one level further down (see \<open>walk_one\<close>).
\<close>

definition lift :: "error + span \<Rightarrow> mapper \<Rightarrow> span walked" where
  "lift r st = (case r of Inl e \<Rightarrow> Inl e | Inr sp \<Rightarrow> Inr (sp, st))"

definition is_last_result_ordered :: "ustring \<Rightarrow> result list \<Rightarrow> error + bool" where
  "is_last_result_ordered text results =
     (case py_getitem results (-1) of
        Inl e \<Rightarrow> Inl e
      | Inr result \<Rightarrow>
          Inr (\<not> (result_type result = ustr ''Div''
                    \<and> map_of (result_extras result) (ustr ''identifier'') = Some (JStr (ustr ''refs''))
                  \<or> result_type result = ustr ''Note''
                    \<and> map_of (result_extras result) (ustr ''type'') = Some (JStr (ustr ''footnote''))
                  \<or> list_ex (\<lambda>prev. result_type prev = ustr ''SoftBreak''
                                \<and> newline \<notin> set (py_slice text (result_start prev) (result_end prev)))
                       (butlast results))))"

fun walk_multiple_loop ::
  "walker \<Rightarrow> ustring \<Rightarrow> nat \<Rightarrow> json list \<Rightarrow> int \<Rightarrow> int \<Rightarrow> result list \<Rightarrow> mapper \<Rightarrow>
   (int \<times> int) walked" where
  "walk_multiple_loop w text i [] start end results st = Inr ((start, end), st)"
| "walk_multiple_loop w text i (entry # entries) start end results st =
     (case w end entry st of
        Inl e \<Rightarrow> Inl e
      | Inr (None, st) \<Rightarrow> walk_multiple_loop w text (Suc i) entries start end results st
      | Inr (Some result, st) \<Rightarrow>
          (let results = results @ [result]
           in case is_last_result_ordered text results of
                Inl e \<Rightarrow> Inl e
              | Inr ordered \<Rightarrow>
                  if ordered then
                    walk_multiple_loop w text (Suc i) entries
                      (if i = 0 then result_start result else start) (result_end result) results st
                  else walk_multiple_loop w text (Suc i) entries start end results st))"

definition walk_multiple :: "walker \<Rightarrow> ustring \<Rightarrow> int \<Rightarrow> json \<Rightarrow> int \<Rightarrow> mapper \<Rightarrow> span walked" where
  "walk_multiple w text index entries padding st =
     (case py_iter entries of
        Inl e \<Rightarrow> Inl e
      | Inr es \<Rightarrow>
          (case walk_multiple_loop w text 0 es index index [] st of
             Inl e \<Rightarrow> Inl e
           | Inr ((start, end), st) \<Rightarrow>
               Inr ((start - padding, end + padding,
                     if padding \<noteq> 0 then content_extras start end else []), st)))"

text \<open>
  The loop of \<open>walk_multiple_nested\<close>; \<open>f\<close> walks one element: \<open>walk_multiple\<close>, or
  \<open>walk_multiple_nested\<close> with one level of nesting less.
\<close>

fun walk_nested_loop ::
  "(int \<Rightarrow> json \<Rightarrow> mapper \<Rightarrow> span walked) \<Rightarrow> nat \<Rightarrow> json list \<Rightarrow> int \<Rightarrow> int \<Rightarrow> mapper \<Rightarrow>
   (int \<times> int) walked" where
  "walk_nested_loop f i [] start end st = Inr ((start, end), st)"
| "walk_nested_loop f i (entries # rest) start end st =
     (case f end entries st of
        Inl e \<Rightarrow> Inl e
      | Inr ((s, end, _), st) \<Rightarrow>
          walk_nested_loop f (Suc i) rest (if i = 0 then s else start) end st)"

definition walk_nested_with ::
  "(int \<Rightarrow> json \<Rightarrow> mapper \<Rightarrow> span walked) \<Rightarrow> int \<Rightarrow> json \<Rightarrow> mapper \<Rightarrow> span walked" where
  "walk_nested_with f index entries_nested st =
     (case py_iter entries_nested of
        Inl e \<Rightarrow> Inl e
      | Inr es \<Rightarrow>
          (case walk_nested_loop f 0 es index index st of
             Inl e \<Rightarrow> Inl e
           | Inr ((start, end), st) \<Rightarrow> Inr ((start, end, []), st)))"

primrec walk_multiple_nested ::
  "nat \<Rightarrow> walker \<Rightarrow> ustring \<Rightarrow> int \<Rightarrow> json \<Rightarrow> mapper \<Rightarrow> span walked" where
  "walk_multiple_nested 0 w text =
     walk_nested_with (\<lambda>index entries. walk_multiple w text index entries 0)"
| "walk_multiple_nested (Suc nesting) w text =
     walk_nested_with
       (if nesting > 0 then walk_multiple_nested nesting w text
        else (\<lambda>index entries. walk_multiple w text index entries 0))"

fun walk_pairs_loop ::
  "walker \<Rightarrow> ustring \<Rightarrow> nat \<Rightarrow> json list \<Rightarrow> int \<Rightarrow> int \<Rightarrow> mapper \<Rightarrow> (int \<times> int) walked" where
  "walk_pairs_loop w text i [] start end st = Inr ((start, end), st)"
| "walk_pairs_loop w text i (entry_to_entry_nested # rest) start end st =
     (case unpack2 ValueError entry_to_entry_nested of
        Inl e \<Rightarrow> Inl e
      | Inr (entry, entries_nested) \<Rightarrow>
          (case walk_multiple w text end entry 0 st of
             Inl e \<Rightarrow> Inl e
           | Inr ((s, end, _), st) \<Rightarrow>
               (case walk_multiple_nested 1 w text end entries_nested st of
                  Inl e \<Rightarrow> Inl e
                | Inr ((_, end, _), st) \<Rightarrow>
                    walk_pairs_loop w text (Suc i) rest (if i = 0 then s else start) end st)))"

definition walk_multiple_to_multiple_nested ::
  "walker \<Rightarrow> ustring \<Rightarrow> int \<Rightarrow> json \<Rightarrow> mapper \<Rightarrow> span walked" where
  "walk_multiple_to_multiple_nested w text index entries_to_entries_nested st =
     (case py_iter entries_to_entries_nested of
        Inl e \<Rightarrow> Inl e
      | Inr es \<Rightarrow>
          (case walk_pairs_loop w text 0 es index index st of
             Inl e \<Rightarrow> Inl e
           | Inr ((start, end), st) \<Rightarrow> Inr ((start, end, []), st)))"

definition walk_list :: "walker \<Rightarrow> ustring \<Rightarrow> int \<Rightarrow> json \<Rightarrow> mapper \<Rightarrow> span walked" where
  "walk_list w text index nested_entries st =
     (case walk_multiple_nested 1 w text index nested_entries st of
        Inl e \<Rightarrow> Inl e
      | Inr ((start, end, _), st) \<Rightarrow> Inr ((start, end, content_extras start end), st))"

definition walk_header ::
  "walker \<Rightarrow> ustring \<Rightarrow> int \<Rightarrow> json \<Rightarrow> json \<Rightarrow> json \<Rightarrow> mapper \<Rightarrow> span walked" where
  "walk_header w text index level attr entries st =
     (case walk_multiple w text index entries 0 st of
        Inl e \<Rightarrow> Inl e
      | Inr ((start, end, _), st) \<Rightarrow>
          (let (line_after_start, line_after_end) = get_line_after text end;
               end = (if re_match header_setext_delim
                           (py_slice text line_after_start line_after_end) \<noteq> None
                      then line_after_end else end)
           in Inr ((start, end, (ustr ''level'', level) # content_extras start end), st)))"

definition walk_table ::
  "walker \<Rightarrow> ustring \<Rightarrow> int \<Rightarrow> json \<Rightarrow> json \<Rightarrow> json \<Rightarrow> json \<Rightarrow> json \<Rightarrow> mapper \<Rightarrow> span walked" where
  "walk_table w text index caption alignment column_widths header rows st =
     (let start = index
      in case walk_multiple_nested 1 w text start header st of
           Inl e \<Rightarrow> Inl e
         | Inr ((header_start, header_end, _), st) \<Rightarrow>
      (case walk_multiple_nested 2 w text header_end rows st of
           Inl e \<Rightarrow> Inl e
         | Inr ((rows_start, rows_end, _), st) \<Rightarrow>
      (case walk_multiple w text start caption 0 st of
           Inl e \<Rightarrow> Inl e
         | Inr ((caption_start, caption_end, _), st) \<Rightarrow>
      (let start =
             (if header_start \<noteq> header_end \<and> caption_start \<noteq> caption_end
                then min header_start caption_start
              else if header_start \<noteq> header_end then header_start
              else if caption_start \<noteq> caption_end then min caption_start rows_start
              else rows_start);
           end = (if caption_start \<noteq> caption_end then max caption_end rows_end else rows_end);
           (line_before_start, line_before_end) = get_line_before text start;
           start = (if re_match table_delim (py_slice text line_before_start line_before_end) \<noteq> None
                    then line_before_start else start);
           (line_after_start, line_after_end) = get_line_after text end;
           end = (if re_match table_delim (py_slice text line_after_start line_after_end) \<noteq> None
                  then line_after_end else end);
           extras = [(ustr ''rows_start'', JInt rows_start), (ustr ''rows_end'', JInt rows_end)];
           extras = (if header_start \<noteq> header_end
                     then extras @ [(ustr ''header_start'', JInt header_start),
                                    (ustr ''header_end'', JInt header_end)]
                     else extras);
           extras = (if caption_start \<noteq> caption_end
                     then extras @ [(ustr ''caption_start'', JInt caption_start),
                                    (ustr ''caption_end'', JInt caption_end)]
                     else extras)
       in Inr ((start, end, extras), st)))))"

definition walk_div :: "walker \<Rightarrow> ustring \<Rightarrow> int \<Rightarrow> json \<Rightarrow> json \<Rightarrow> mapper \<Rightarrow> span walked" where
  "walk_div w text index attr entries st =
     (case walk_multiple w text index entries 0 st of
        Inl e \<Rightarrow> Inl e
      | Inr ((start, end, _), st) \<Rightarrow>
          (case unpack3 ValueError attr of
             Inl e \<Rightarrow> Inl e
           | Inr (identifier, _, _) \<Rightarrow>
               Inr ((start, end,
                     if truthy identifier then [(ustr ''identifier'', identifier)] else []), st)))"

fun small_caps_delim :: "ustring \<Rightarrow> (ustring \<times> ustring) list \<Rightarrow> int \<Rightarrow> int \<Rightarrow> int \<times> int" where
  "small_caps_delim text [] start end = (start, end)"
| "small_caps_delim text ((smallcaps_start, smallcaps_end) # delims) start end =
     (if py_startswith text smallcaps_end end
      then (py_rfind text smallcaps_start (Some 0) (Some end), end + int (length smallcaps_end))
      else small_caps_delim text delims start end)"

definition walk_small_caps :: "walker \<Rightarrow> ustring \<Rightarrow> int \<Rightarrow> json \<Rightarrow> mapper \<Rightarrow> span walked" where
  "walk_small_caps w text index entries st =
     (case walk_multiple w text index entries 0 st of
        Inl e \<Rightarrow> Inl e
      | Inr ((start, end, _), st) \<Rightarrow>
          (let (content_start, content_end) = (start, end);
               (start, end) = small_caps_delim text smallcaps_delims start end
           in Inr ((start, end, content_extras content_start content_end), st)))"

text \<open>
  The dictionary \<open>walk_link\<close> builds in its local variable \<open>extras\<close>. The function
  returns a fresh dictionary of the content bounds instead of it.
\<close>

definition link_extras :: "int \<Rightarrow> int \<Rightarrow> int \<Rightarrow> int \<Rightarrow> int \<Rightarrow> int \<Rightarrow> dict" where
  "link_extras content_start content_end url_start url_end title_start title_end =
     (let extras = content_extras content_start content_end;
          extras = (if url_start \<noteq> url_end
                    then extras @ [(ustr ''url_start'', JInt url_start), (ustr ''url_end'', JInt url_end)]
                    else extras);
          extras = (if title_start \<noteq> title_end
                    then extras @ [(ustr ''title_start'', JInt title_start),
                                   (ustr ''title_end'', JInt title_end)]
                    else extras)
      in extras)"

definition find_if_present :: "ustring \<Rightarrow> json \<Rightarrow> int \<Rightarrow> error + (int \<times> int)" where
  \<comment> \<open>\<^verbatim>\<open>if x: x_start, x_end = self.__find(x, end)\<close>, from \<open>x_start = x_end = end\<close>\<close>
  "find_if_present text x end =
     (if truthy x then
        (case as_str TypeError x of
           Inl e \<Rightarrow> Inl e
         | Inr s \<Rightarrow> Inr (find_text text s (Some end) None))
      else Inr (end, end))"

definition walk_link ::
  "walker \<Rightarrow> ustring \<Rightarrow> int \<Rightarrow> json \<Rightarrow> json \<Rightarrow> json \<Rightarrow> mapper \<Rightarrow> span walked" where
  "walk_link w text index attr entries target st =
     (let start = index
      in case walk_multiple w text start entries 0 st of
           Inl e \<Rightarrow> Inl e
         | Inr ((content_start, content_end, _), st) \<Rightarrow>
      (let end = content_end
       in case unpack2 ValueError target of
            Inl e \<Rightarrow> Inl e
          | Inr (url, title) \<Rightarrow>
      (case find_if_present text url end of
            Inl e \<Rightarrow> Inl e
          | Inr (url_start, url_end) \<Rightarrow>
      (case find_if_present text title end of
            Inl e \<Rightarrow> Inl e
          | Inr (title_start, title_end) \<Rightarrow>
      (let end = max url_end title_end;
           end = (if fst (get_line text content_end) \<noteq> fst (get_line text end) then content_end
                  else if url_start \<noteq> url_end then end + 1
                  else end);
           extras = link_extras content_start content_end url_start url_end title_start title_end
       in Inr ((start, end, content_extras content_start content_end), st))))))"

definition walk_note :: "walker \<Rightarrow> ustring \<Rightarrow> int \<Rightarrow> json \<Rightarrow> mapper \<Rightarrow> span walked" where
  "walk_note w text index entries st =
     (let start = index; end = index
      in if py_startswith (py_slice_from text start) (ustr ''^['') 0 then
           (case walk_multiple w text start entries 0 st of
              Inl e \<Rightarrow> Inl e
            | Inr ((start, end, _), st) \<Rightarrow>
                Inr ((start, end + 1,
                      (ustr ''type'', JStr (ustr ''inline'')) # content_extras start end), st))
         else
           (let extras = [(ustr ''type'', JStr (ustr ''footnote''))]
            in case re_match footnote_identifier (py_slice_from text start) of
                 None \<Rightarrow> Inr ((start, end, extras), st)
               | Some group_end \<Rightarrow>
                   (case re_search_multiline
                           (footnote_definition (take group_end (py_slice_from text start))) text of
                      None \<Rightarrow> Inr ((start, end, extras), st)
                    | Some match_start \<Rightarrow>
                        (case walk_multiple w text (int match_start) entries 0 st of
                           Inl e \<Rightarrow> Inl e
                         | Inr ((start, end, _), st) \<Rightarrow>
                             Inr ((start, end, extras @ content_extras start end), st)))))"

subsection \<open>Dispatch\<close>

text \<open>
  The dispatch table: for each tag the walker, applied to the arguments its
  argument function extracts from the node's content \<open>c\<close>.
\<close>

type_synonym handler = "int \<Rightarrow> json \<Rightarrow> mapper \<Rightarrow> span walked"

definition on_second :: "handler \<Rightarrow> handler" where
  \<comment> \<open>\<^verbatim>\<open>lambda args: [args[1]]\<close>\<close>
  "on_second fn index args st =
     (case getitem_int args 1 of Inl e \<Rightarrow> Inl e | Inr a \<Rightarrow> fn index a st)"

definition block_types :: "walker \<Rightarrow> ustring \<Rightarrow> (ustring \<times> handler) list" where
  "block_types w text =
     [(ustr ''Plain'', \<lambda>index args. walk_multiple w text index args 0),
      (ustr ''Para'', \<lambda>index args. walk_multiple w text index args 0),
      (ustr ''LineBlock'', \<lambda>index args. walk_multiple_nested 1 w text index args),
      (ustr ''CodeBlock'', \<lambda>index args st.
         case unpack2 TypeError args of
           Inl e \<Rightarrow> Inl e
         | Inr (attr, string) \<Rightarrow> lift (walk_code_block text index attr string) st),
      (ustr ''RawBlock'', on_second (\<lambda>index string. lift (walk_str text index string))),
      (ustr ''BlockQuote'', \<lambda>index args. walk_multiple w text index args 0),
      (ustr ''OrderedList'', on_second (walk_list w text)),
      (ustr ''BulletList'', walk_list w text),
      (ustr ''DefinitionList'', walk_multiple_to_multiple_nested w text),
      (ustr ''Header'', \<lambda>index args st.
         case unpack3 TypeError args of
           Inl e \<Rightarrow> Inl e
         | Inr (level, attr, entries) \<Rightarrow> walk_header w text index level attr entries st),
      (ustr ''HorizontalRule'', \<lambda>index args. lift (walk_horizontal_rule text index)),
      (ustr ''Table'', \<lambda>index args st.
         case unpack5 TypeError args of
           Inl e \<Rightarrow> Inl e
         | Inr (caption, alignment, column_widths, header, rows) \<Rightarrow>
             walk_table w text index caption alignment column_widths header rows st),
      (ustr ''Div'', \<lambda>index args st.
         case unpack2 TypeError args of
           Inl e \<Rightarrow> Inl e
         | Inr (attr, entries) \<Rightarrow> walk_div w text index attr entries st),
      (ustr ''Null'', \<lambda>index args. lift (walk_nothing index))]"

definition inline_types :: "walker \<Rightarrow> ustring \<Rightarrow> (ustring \<times> handler) list" where
  "inline_types w text =
     [(ustr ''Str'', \<lambda>index arg. lift (walk_str text index arg)),
      (ustr ''Emph'', \<lambda>index args. walk_multiple w text index args 1),
      (ustr ''Strong'', \<lambda>index args. walk_multiple w text index args 2),
      (ustr ''Strikeout'', \<lambda>index args. walk_multiple w text index args 2),
      (ustr ''Superscript'', \<lambda>index args. walk_multiple w text index args 1),
      (ustr ''Subscript'', \<lambda>index args. walk_multiple w text index args 1),
      (ustr ''SmallCaps'', walk_small_caps w text),
      (ustr ''Quoted'', on_second (\<lambda>index args. walk_multiple w text index args 1)),
      (ustr ''Cite'', \<lambda>index args st.
         case unpack2 TypeError args of
           Inl e \<Rightarrow> Inl e
         | Inr (citations, bibliography_entries) \<Rightarrow>
             lift (walk_cite text index citations bibliography_entries) st),
      (ustr ''Code'', on_second (\<lambda>index string. lift (walk_code text index string))),
      (ustr ''Space'', \<lambda>index args. lift (walk_spaces text index)),
      (ustr ''SoftBreak'', \<lambda>index args. lift (walk_spaces text index)),
      (ustr ''LineBreak'', \<lambda>index args. lift (walk_spaces text index)),
      (ustr ''Math'', \<lambda>index args st.
         case unpack2 TypeError args of
           Inl e \<Rightarrow> Inl e
         | Inr (math_type, string) \<Rightarrow> lift (walk_math text index math_type string) st),
      (ustr ''RawInline'', on_second (\<lambda>index string. lift (walk_str text index string))),
      (ustr ''Link'', \<lambda>index args st.
         case unpack3 TypeError args of
           Inl e \<Rightarrow> Inl e
         | Inr (attr, entries, target) \<Rightarrow> walk_link w text index attr entries target st),
      (ustr ''Image'', \<lambda>index args st.
         case unpack3 TypeError args of
           Inl e \<Rightarrow> Inl e
         | Inr (attr, entries, target) \<Rightarrow> walk_link w text index attr entries target st),
      (ustr ''Note'', walk_note w text),
      (ustr ''Span'', on_second (\<lambda>index args. walk_multiple w text index args 0))]"

definition types :: "walker \<Rightarrow> ustring \<Rightarrow> (ustring \<times> handler) list" where
  "types w text = block_types w text @ inline_types w text"

text \<open>
  The second half of \<open>walk_one\<close>, from the validity check on: what it does with the span
  the tag's walker returned.
\<close>

definition remove_spaces :: "ustring \<Rightarrow> int \<Rightarrow> int \<Rightarrow> error + (int \<times> int)" where
  \<comment> \<open>Remove extraneous spaces from non-space types.\<close>
  "remove_spaces text start end =
     (case advance_while_space text start of
        Inl e \<Rightarrow> Inl e
      | Inr start \<Rightarrow>
          (case retreat_while_space text end of
             Inl e \<Rightarrow> Inl e
           | Inr end \<Rightarrow> Inr (start, end)))"

definition save_result ::
  "ustring \<Rightarrow> ustring \<Rightarrow> int \<Rightarrow> int \<Rightarrow> dict \<Rightarrow> mapper \<Rightarrow> (result option) walked" where
  "save_result text t start end extras st =
     (if start < 0 \<or> end < 0 \<or> start \<ge> end then
        Inr (None,
             warn (InvalidResult \<lparr>result_type = t, result_start = start, result_end = end,
                                  result_extras = extras\<rparr>) st)
      else
        (case (if t \<in> set non_spaced_types then remove_spaces text start end
               else Inr (start, end)) of
           Inl e \<Rightarrow> Inl e
         | Inr (start, end) \<Rightarrow>
             (let result =
                    (if t \<in> set paragraph_types then
                       \<lparr>result_type = t,
                        result_start = fst (get_line text start),
                        result_end = snd (get_line text end),
                        result_extras =
                          AList.update (ustr ''e'') (JInt end)
                            (AList.update (ustr ''s'') (JInt start) extras)\<rparr>
                     else
                       \<lparr>result_type = t, result_start = start, result_end = end,
                        result_extras = extras\<rparr>)
              in Inr (Some result, st\<lparr>mapper_results := mapper_results st @ [result]\<rparr>))))"

definition walk_one_with :: "walker \<Rightarrow> ustring \<Rightarrow> walker" where
  "walk_one_with w text index entry st =
     (case getitem_str entry (ustr ''t'') of
        Inl e \<Rightarrow> Inl e
      | Inr t \<Rightarrow>
          (case t of
             JArr _ \<Rightarrow> Inl TypeError
           | JObj _ \<Rightarrow> Inl TypeError
           | JStr k \<Rightarrow>
               (case map_of (types w text) k of
                  None \<Rightarrow> Inr (None, warn (UnknownType t) st)
                | Some fn \<Rightarrow>
                    (case dict_get entry (ustr ''c'') of
                       Inl e \<Rightarrow> Inl e
                     | Inr c \<Rightarrow>
                         (case fn index c st of
                            Inl e \<Rightarrow> Inl e
                          | Inr ((start, end, extras), st) \<Rightarrow>
                              save_result text k start end extras st)))
           | _ \<Rightarrow> Inr (None, warn (UnknownType t) st)))"

text \<open>
  \<open>walk_one\<close>, with the interpreter's recursion budget: every level of nesting of the
  tree costs one unit, and a tree nested deeper than the budget raises RecursionError.
\<close>

primrec walk_one :: "nat \<Rightarrow> ustring \<Rightarrow> walker" where
  "walk_one 0 text = (\<lambda>index entry st. Inl RecursionError)"
| "walk_one (Suc depth) text = walk_one_with (walk_one depth text) text"

text \<open>
  \<open>walk\<close>, from the tree the converter returned (\<open>converted\<close>, already parsed): the
  results of walking its \<open>blocks\<close>.
\<close>

definition walk :: "nat \<Rightarrow> ustring \<Rightarrow> json \<Rightarrow> error + result list" where
  "walk depth text converted =
     (case getitem_str converted (ustr ''blocks'') of
        Inl e \<Rightarrow> Inl e
      | Inr blocks \<Rightarrow>
          (case walk_multiple (walk_one depth text) text 0 blocks 0 \<lparr>mapper_results = [], mapper_warnings = []\<rparr> of
             Inl e \<Rightarrow> Inl e
           | Inr (_, st) \<Rightarrow> Inr (mapper_results st)))"

section \<open>Specification predicates\<close>

text \<open>
  The line span containing a position, in the specification's words: it runs from just
  after the previous newline (or 0) to the next newline (or the end of the text), and
  holds no newline character.
\<close>

definition is_line_span :: "ustring \<Rightarrow> int \<Rightarrow> int \<times> int \<Rightarrow> bool" where
  "is_line_span text p bounds \<longleftrightarrow>
     (let (s, e) = bounds
      in 0 \<le> s \<and> s \<le> p \<and> p \<le> e \<and> e \<le> int (length text)
         \<and> (s = 0 \<or> text ! nat (s - 1) = newline)
         \<and> (e = int (length text) \<or> text ! nat e = newline)
         \<and> newline \<notin> set (py_slice text s e))"


text \<open>
  The bounds every appended result keeps, whatever the tree: a non-negative start, an end
  inside the text, and a start before the end for every kind but the non-spaced ones
  (whose span is trimmed after the validity check).
\<close>

definition span_ok :: "ustring \<Rightarrow> result \<Rightarrow> bool" where
  "span_ok text r \<longleftrightarrow>
     0 \<le> result_start r \<and> result_end r \<le> int (length text)
     \<and> (result_type r \<notin> set non_spaced_types \<longrightarrow> result_start r < result_end r)"

definition all_ok :: "ustring \<Rightarrow> mapper \<Rightarrow> bool" where
  "all_ok text st \<longleftrightarrow> (\<forall>r \<in> set (mapper_results st). span_ok text r)"

text \<open>
  What the proof of these bounds asks of a dispatcher and of a tag's walker, called with a
  cursor inside the text on a state whose results are all in bounds: the results stay in
  bounds, and the span handed back ends inside the text (\<open>good\<close>), or only the former
  (\<open>safe\<close>).
\<close>

definition good_walker :: "ustring \<Rightarrow> walker \<Rightarrow> bool" where
  "good_walker text w \<longleftrightarrow>
     (\<forall>index entry st x st'.
        index \<le> int (length text) \<longrightarrow> all_ok text st \<longrightarrow> w index entry st = Inr (x, st') \<longrightarrow>
        all_ok text st' \<and> (\<forall>r. x = Some r \<longrightarrow> result_end r \<le> int (length text)))"

definition good_handler :: "ustring \<Rightarrow> handler \<Rightarrow> bool" where
  "good_handler text f \<longleftrightarrow>
     (\<forall>index c st s e x st'.
        index \<le> int (length text) \<longrightarrow> all_ok text st \<longrightarrow> f index c st = Inr ((s, e, x), st') \<longrightarrow>
        all_ok text st' \<and> e \<le> int (length text))"

definition safe_handler :: "ustring \<Rightarrow> handler \<Rightarrow> bool" where
  "safe_handler text f \<longleftrightarrow>
     (\<forall>index c st s e x st'.
        index \<le> int (length text) \<longrightarrow> all_ok text st \<longrightarrow> f index c st = Inr ((s, e, x), st') \<longrightarrow>
        all_ok text st')"

section \<open>Line utilities: proofs\<close>


lemma occurs_at_single: "occurs_at text [c] i \<longleftrightarrow> i < length text \<and> text ! i = c"
proof (cases "i < length text")
  case True
  then have "drop i text = text ! i # drop (Suc i) text"
    by (simp add: Cons_nth_drop_Suc)
  then show ?thesis using True by (simp add: occurs_at_def)
next
  case False
  then show ?thesis by (simp add: occurs_at_def)
qed

lemma find_upt_Some:
  "List.find P [s ..< n] = Some i \<Longrightarrow> s \<le> i \<and> i < n \<and> P i \<and> (\<forall>j. s \<le> j \<and> j < i \<longrightarrow> \<not> P j)"
  by (auto simp: find_Some_iff) (metis nat_le_iff_add nat_add_left_cancel_less)

lemma find_upt_None: "List.find P [s ..< n] = None \<Longrightarrow> \<forall>j. s \<le> j \<and> j < n \<longrightarrow> \<not> P j"
  by (auto simp: find_None_iff)

lemma find_rev_upt_Some:
  "List.find P (rev [0 ..< n]) = Some i \<Longrightarrow> i < n \<and> P i \<and> (\<forall>j. i < j \<and> j < n \<longrightarrow> \<not> P j)"
proof (induction n)
  case 0 then show ?case by simp
next
  case (Suc n)
  then show ?case by (auto split: if_splits simp: less_Suc_eq)
qed

lemma find_rev_upt_None: "List.find P (rev [0 ..< n]) = None \<Longrightarrow> \<forall>j < n. \<not> P j"
  by (auto simp: find_None_iff)

lemma py_rfind_newline:
  assumes "0 \<le> index" "index \<le> int (length text)"
  shows "(py_rfind text [newline] (Some 0) (Some index) = -1 \<and> (\<forall>j < nat index. text ! j \<noteq> newline))
       \<or> (\<exists>r. py_rfind text [newline] (Some 0) (Some index) = int r \<and> r < nat index \<and> text ! r = newline
              \<and> (\<forall>j. r < j \<and> j < nat index \<longrightarrow> text ! j \<noteq> newline))"
proof -
  have c: "candidates text [newline] (Some 0) (Some index) = [0 ..< nat index]"
    using assms by (auto simp: candidates_def find_start_def find_end_def clamp_index_def Let_def)
  show ?thesis
  proof (cases "List.find (occurs_at text [newline]) (rev [0 ..< nat index])")
    case None
    from find_rev_upt_None[OF this] assms show ?thesis
      by (auto simp: py_rfind_def c None occurs_at_single)
  next
    case (Some r)
    from find_rev_upt_Some[OF this] assms show ?thesis
      by (auto simp: py_rfind_def c Some occurs_at_single)
  qed
qed

lemma py_find_newline:
  assumes "s \<le> length text"
  shows "(py_find text [newline] (Some (int s)) None = -1 \<and> (\<forall>j. s \<le> j \<and> j < length text \<longrightarrow> text ! j \<noteq> newline))
       \<or> (\<exists>r. py_find text [newline] (Some (int s)) None = int r \<and> s \<le> r \<and> r < length text \<and> text ! r = newline
              \<and> (\<forall>j. s \<le> j \<and> j < r \<longrightarrow> text ! j \<noteq> newline))"
proof -
  have "Suc (length text - Suc 0) = length text" if "s < length text"
    using that by simp
  then have c: "candidates text [newline] (Some (int s)) None = [s ..< length text]"
    using assms by (cases "s < length text") (simp_all add: candidates_def find_start_def find_end_def Let_def)
  show ?thesis
  proof (cases "List.find (occurs_at text [newline]) [s ..< length text]")
    case None
    from find_upt_None[OF this] assms show ?thesis
      by (auto simp: py_find_def c None occurs_at_single)
  next
    case (Some r)
    from find_upt_Some[OF this] assms show ?thesis
      by (auto simp: py_find_def c Some occurs_at_single)
  qed
qed

lemma in_set_take_drop:
  assumes "x \<in> set (take n (drop k xs))"
  shows "\<exists>j. k \<le> j \<and> j < k + n \<and> j < length xs \<and> xs ! j = x"
proof -
  from assms obtain i where i: "i < length (take n (drop k xs))" "take n (drop k xs) ! i = x"
    by (auto simp: in_set_conv_nth)
  then have "i < n" "k + i < length xs" by auto
  moreover from i this have "xs ! (k + i) = x" by simp
  ultimately show ?thesis by (intro exI[of _ "k + i"]) auto
qed

lemma no_newline_slice:
  assumes "0 \<le> s" "0 \<le> e" "\<forall>j. nat s \<le> j \<and> j < nat e \<longrightarrow> text ! j \<noteq> newline"
  shows "newline \<notin> set (py_slice text s e)"
proof
  assume "newline \<in> set (py_slice text s e)"
  then have "newline \<in> set (take (clamp_index (length text) e - clamp_index (length text) s)
                               (drop (clamp_index (length text) s) text))"
    by (simp add: py_slice_def Let_def)
  from in_set_take_drop[OF this] obtain j where
    j: "clamp_index (length text) s \<le> j"
       "j < clamp_index (length text) s + (clamp_index (length text) e - clamp_index (length text) s)"
       "j < length text" "text ! j = newline" by blast
  from j(1,3) assms(1) have "nat s \<le> j" by (auto simp: clamp_index_def split: if_splits)
  moreover from j(1,2) have "j < clamp_index (length text) e" by simp
  then have "j < nat e" using j(3) assms(2) by (auto simp: clamp_index_def split: if_splits)
  ultimately show False using assms(3) j(4) by blast
qed

lemma get_line_span:
  assumes "0 \<le> index" "index \<le> int (length text)"
  shows "is_line_span text index (get_line text index)"
proof -
  define r where "r = py_rfind text [newline] (Some 0) (Some index)"
  define s where "s = nat (r + 1)"
  from py_rfind_newline[OF assms] have r:
    "-1 \<le> r" "r < index" "r = -1 \<or> text ! nat r = newline"
    "\<forall>j. s \<le> j \<and> j < nat index \<longrightarrow> text ! j \<noteq> newline"
    unfolding r_def[symmetric] s_def using assms(1) by auto
  have s: "int s = r + 1" "s \<le> length text" "int s \<le> index"
    using r assms by (auto simp: s_def)
  define f where "f = py_find text [newline] (Some (int s)) None"
  define e where "e = (if f < 0 then int (length text) else f)"
  have gl: "get_line text index = (int s, e)"
    by (simp add: get_line_def Let_def r_def[symmetric] s(1)[symmetric] f_def[symmetric] e_def)
  from py_find_newline[OF s(2)] have f:
    "(f = -1 \<and> (\<forall>j. s \<le> j \<and> j < length text \<longrightarrow> text ! j \<noteq> newline))
     \<or> (int s \<le> f \<and> f < int (length text) \<and> text ! nat f = newline
        \<and> (\<forall>j. s \<le> j \<and> j < nat f \<longrightarrow> text ! j \<noteq> newline))"
    unfolding f_def[symmetric] by auto
  have e1: "e \<le> int (length text)" "e = int (length text) \<or> text ! nat e = newline"
    "\<forall>j. s \<le> j \<and> j < nat e \<longrightarrow> text ! j \<noteq> newline"
    using f by (auto simp: e_def)
  have e2: "index \<le> e"
  proof (rule ccontr)
    assume "\<not> index \<le> e"
    then have "e < index" by simp
    with e1(2) assms have ne: "text ! nat e = newline" by auto
    have "int s \<le> e" using f s by (auto simp: e_def)
    with \<open>e < index\<close> r(4) ne show False
      by (metis nat_int nat_mono nat_mono_iff assms(1) le_less_trans of_nat_0_le_iff)
  qed
  have "newline \<notin> set (py_slice text (int s) e)"
    by (rule no_newline_slice) (use e1 e2 assms in auto)
  moreover have "int s = 0 \<or> text ! nat (int s - 1) = newline"
    using r s by auto
  ultimately show ?thesis
    using s e1 e2 by (simp add: gl is_line_span_def)
qed


lemma py_slice_nth_mem:
  assumes "0 \<le> s" "s \<le> j" "j < e" "e \<le> int (length text)"
  shows "text ! nat j \<in> set (py_slice text s e)"
proof -
  have "nat e \<le> length text" "nat s \<le> length text" using assms by auto
  then have sl: "py_slice text s e = take (nat e - nat s) (drop (nat s) text)"
    using assms by (simp add: py_slice_def clamp_index_def Let_def)
  have "nat j - nat s < length (take (nat e - nat s) (drop (nat s) text))"
    using assms by auto
  moreover have "take (nat e - nat s) (drop (nat s) text) ! (nat j - nat s) = text ! nat j"
    using assms by auto
  ultimately show ?thesis unfolding sl by (metis nth_mem)
qed

lemma py_slice_from_nth_mem:
  assumes "0 \<le> s" "s \<le> j" "j < int (length text)"
  shows "text ! nat j \<in> set (py_slice_from text s)"
proof -
  have "nat s \<le> length text" using assms by auto
  then have "py_slice_from text s = drop (nat s) text"
    using assms by (simp add: py_slice_from_def clamp_index_def)
  moreover have "nat j - nat s < length (drop (nat s) text)" using assms by auto
  moreover have "drop (nat s) text ! (nat j - nat s) = text ! nat j" using assms by auto
  ultimately show ?thesis by (metis nth_mem)
qed

text \<open>
  C8, as amended. For an index inside the text, \<open>get_line\<close> returns the line span
  containing the index. \<open>get_line_before\<close> returns the line span containing the position
  just before the start of that line, clamped at 0 (not the position \<open>index - 1\<close>): when
  the line of the index is not the first, it is the previous line, ending at the newline
  before it. \<open>get_line_after\<close> returns the line span containing the position just after
  the end of the line of the index, clamped at \<open>len(text) - 1\<close> (not the position
  \<open>index + 1\<close>): when that position is inside the text, it is the next line.
\<close>

theorem line_before_after_spans:
  assumes "0 \<le> index" "index \<le> int (length text)"
  shows "is_line_span text index (get_line text index)
       \<and> is_line_span text (max (fst (get_line text index) - 1) 0) (get_line_before text index)
       \<and> (0 < fst (get_line text index) \<longrightarrow>
            snd (get_line_before text index) = fst (get_line text index) - 1)
       \<and> (text \<noteq> [] \<longrightarrow>
            is_line_span text (min (snd (get_line text index) + 1) (int (length text) - 1))
              (get_line_after text index))
       \<and> (snd (get_line text index) + 1 < int (length text) \<longrightarrow>
            fst (get_line_after text index) = snd (get_line text index) + 1)"
proof -
  obtain s e where gl: "get_line text index = (s, e)" by (cases "get_line text index")
  from get_line_span[OF assms] gl have se:
    "0 \<le> s" "s \<le> index" "index \<le> e" "e \<le> int (length text)"
    "s = 0 \<or> text ! nat (s - 1) = newline" "e = int (length text) \<or> text ! nat e = newline"
    by (auto simp: is_line_span_def)
  have b0: "0 \<le> max (s - 1) 0" "max (s - 1) 0 \<le> int (length text)" using se by auto
  obtain s1 e1 where glb: "get_line text (max (s - 1) 0) = (s1, e1)"
    by (cases "get_line text (max (s - 1) 0)")
  from get_line_span[OF b0] glb have before:
    "0 \<le> s1" "s1 \<le> max (s - 1) 0" "max (s - 1) 0 \<le> e1" "e1 \<le> int (length text)"
    "newline \<notin> set (py_slice text s1 e1)"
    by (auto simp: is_line_span_def)
  have c3: "e1 = s - 1" if "0 < s"
  proof (rule ccontr)
    assume "e1 \<noteq> s - 1"
    with before that have "s - 1 < e1" by auto
    from py_slice_nth_mem[OF before(1) _ this before(4)] before(2) that
    have "text ! nat (s - 1) \<in> set (py_slice text s1 e1)" by auto
    with se(5) that before(5) show False by auto
  qed
  have c4: "is_line_span text (min (e + 1) (int (length text) - 1))
              (get_line text (min (e + 1) (int (length text) - 1)))" if "text \<noteq> []"
    by (rule get_line_span) (use se that in auto)
  have c5: "fst (get_line text (min (e + 1) (int (length text) - 1))) = e + 1"
    if lt: "e + 1 < int (length text)"
  proof -
    have m: "min (e + 1) (int (length text) - 1) = e + 1" using lt by simp
    obtain s2 e2 where gla: "get_line text (e + 1) = (s2, e2)" by (cases "get_line text (e + 1)")
    have "is_line_span text (e + 1) (get_line text (e + 1))"
      by (rule get_line_span) (use se lt in auto)
    with gla have after: "0 \<le> s2" "s2 \<le> e + 1" "e + 1 \<le> e2" "e2 \<le> int (length text)"
      "newline \<notin> set (py_slice text s2 e2)"
      by (auto simp: is_line_span_def)
    have "s2 = e + 1"
    proof (rule ccontr)
      assume "s2 \<noteq> e + 1"
      with after have "s2 \<le> e" by auto
      from py_slice_nth_mem[OF after(1) this _ after(4)] after(3)
      have "text ! nat e \<in> set (py_slice text s2 e2)" by auto
      with se(6) lt after(5) show False by auto
    qed
    then show ?thesis by (simp add: m gla)
  qed
  have p1: "is_line_span text index (get_line text index)"
    by (rule get_line_span[OF assms])
  have p2: "is_line_span text (max (fst (get_line text index) - 1) 0) (get_line_before text index)"
    using get_line_span[OF b0] by (simp add: get_line_before_def gl Let_def)
  have p3: "0 < fst (get_line text index) \<longrightarrow>
            snd (get_line_before text index) = fst (get_line text index) - 1"
    using c3 glb by (auto simp: get_line_before_def gl Let_def max_def split: if_splits)
  have p4: "text \<noteq> [] \<longrightarrow>
            is_line_span text (min (snd (get_line text index) + 1) (int (length text) - 1))
              (get_line_after text index)"
    using c4 by (simp add: get_line_after_def gl Let_def)
  have p5: "snd (get_line text index) + 1 < int (length text) \<longrightarrow>
            fst (get_line_after text index) = snd (get_line text index) + 1"
    using c5 by (simp add: get_line_after_def gl Let_def)
  from p1 p2 p3 p4 p5 show ?thesis by blast
qed

lemma ustr_simps: "ustr [] = []" "ustr (c # cs) = of_char c # ustr cs"
  by (simp_all add: ustr_def)

text \<open>
  C8 as stated fails: in the text \<open>ab\ncd\<close> the line before index 4 is \<open>(0, 2)\<close>,
  which does not contain position \<open>4 - 1\<close>, and the line after index 0 is \<open>(3, 5)\<close>,
  which does not contain position \<open>0 + 1\<close>.
\<close>

theorem line_before_counterexample:
  "get_line_before (ustr ''ab'' @ [newline] @ ustr ''cd'') 4 = (0, 2)
   \<and> \<not> is_line_span (ustr ''ab'' @ [newline] @ ustr ''cd'') (max (4 - 1) 0)
         (get_line_before (ustr ''ab'' @ [newline] @ ustr ''cd'') 4)
   \<and> get_line_after (ustr ''ab'' @ [newline] @ ustr ''cd'') 0 = (3, 5)
   \<and> \<not> is_line_span (ustr ''ab'' @ [newline] @ ustr ''cd'') (min (0 + 1) (5 - 1))
         (get_line_after (ustr ''ab'' @ [newline] @ ustr ''cd'') 0)"
  by (simp add: get_line_before_def get_line_after_def get_line_def py_find_def py_rfind_def
        candidates_def find_start_def find_end_def clamp_index_def occurs_at_def ustr_simps
        newline_def is_line_span_def Let_def upt_rec)

theorem line_before_after_spans_witness:
  "is_line_span (ustr ''ab'' @ [newline] @ ustr ''cd'') 4 (get_line (ustr ''ab'' @ [newline] @ ustr ''cd'') 4)
   \<and> snd (get_line_before (ustr ''ab'' @ [newline] @ ustr ''cd'') 4) = 2"
  using line_before_after_spans[of 4 "ustr ''ab'' @ [newline] @ ustr ''cd''"]
  by (simp add: get_line_def py_find_def py_rfind_def
        candidates_def find_start_def find_end_def clamp_index_def occurs_at_def ustr_simps
        newline_def Let_def upt_rec)

section \<open>Text locator: proofs\<close>

text \<open>
  C4. In the escape-aware search an invalid range (start greater than end, a negative
  bound, or an end beyond the length of the text) returns \<open>(-1, -1)\<close> for every target,
  the empty one included; on a valid range the empty target returns \<open>(start, start)\<close>.
  An omitted start is 0 and an omitted end is the length of the text.
\<close>

theorem find_unescaped_edge_cases:
  "(let s = (case a of None \<Rightarrow> 0 | Some s \<Rightarrow> s);
        e = (case b of None \<Rightarrow> int (length text) | Some e \<Rightarrow> e)
    in (s > e \<or> s < 0 \<or> e < 0 \<or> e > int (length text) \<longrightarrow>
          find_unescaped text sub a b = Inr (-1, -1))
     \<and> (s \<le> e \<and> 0 \<le> s \<and> e \<le> int (length text) \<longrightarrow>
          find_unescaped text [] a b = Inr (s, s)))"
  by (auto simp: find_unescaped_def Let_def)

theorem find_unescaped_edge_cases_witness:
  "find_unescaped (ustr ''abc'') [] (Some 1) None = Inr (1, 1)
   \<and> find_unescaped (ustr ''abc'') (ustr ''b'') (Some 2) (Some 1) = Inr (-1, -1)
   \<and> find_unescaped (ustr ''abc'') [] (Some 0) (Some 4) = Inr (-1, -1)"
  using find_unescaped_edge_cases[of "Some 1" "ustr ''abc''" None "ustr ''b''"]
        find_unescaped_edge_cases[of "Some 2" "ustr ''abc''" "Some 1" "ustr ''b''"]
        find_unescaped_edge_cases[of "Some 0" "ustr ''abc''" "Some 4" "[]"]
  by (simp add: ustr_simps)

lemma increment_at_literal:
  assumes "i < length text" "k < length sub" "text ! i = sub ! k"
  shows "increment_at text sub (int k) sm (int i) = Inr 1"
  using assms by (simp add: increment_at_def py_getitem_def)

lemma occurs_at_nth:
  assumes "occurs_at text sub i0" "k < length sub" "i0 + length sub \<le> length text"
  shows "text ! (i0 + k) = sub ! k"
proof -
  have "sub ! k = take (length sub) (drop i0 text) ! k"
    using assms(1) by (simp add: occurs_at_def)
  also have "\<dots> = text ! (i0 + k)" using assms(2,3) by simp
  finally show ?thesis by simp
qed

lemma loop_verbatim:
  assumes occ: "occurs_at text sub i0" and len: "i0 + length sub \<le> length text"
    and e: "int (i0 + length sub) \<le> e" and k: "k < length sub"
  shows "find_unescaped_loop text sub e (int k) (if k = 0 then -1 else int i0) (int (i0 + k))
         = Inr (int i0, int (i0 + length sub))"
  using k
proof (induction "length sub - k" arbitrary: k)
  case 0
  then show ?case by simp
next
  case (Suc n)
  have inc: "increment_at text sub (int k) (if k = 0 then -1 else int i0) (int (i0 + k)) = Inr 1"
    by (rule increment_at_literal) (use Suc.prems len occurs_at_nth[OF occ Suc.prems len] in auto)
  have lt: "int (i0 + k) < e" using Suc.prems e by simp
  show ?case
  proof (cases "Suc k = length sub")
    case True
    then have "int k + 1 = int (length sub)" by simp
    then show ?thesis
      using inc lt True by (subst find_unescaped_loop.simps) (auto simp: Let_def)
  next
    case False
    then have k': "Suc k < length sub" using Suc.prems by simp
    have n: "n = length sub - Suc k" using Suc.hyps(2) by simp
    have ne: "int k + 1 \<noteq> int (length sub)" using False by linarith
    have "find_unescaped_loop text sub e (int k) (if k = 0 then -1 else int i0) (int (i0 + k))
          = find_unescaped_loop text sub e (int k + 1) (int i0) (int (i0 + k) + 1)"
      using inc lt ne by (subst find_unescaped_loop.simps) (auto simp: Let_def)
    also have "\<dots> = find_unescaped_loop text sub e (int (Suc k)) (int i0) (int (i0 + Suc k))"
      by (simp add: add.commute add.left_commute)
    also have "\<dots> = Inr (int i0, int (i0 + length sub))"
      using Suc.hyps(1)[OF n k'] by simp
    finally show ?thesis .
  qed
qed

lemma verbatim_slice:
  assumes "sub \<noteq> []" "0 \<le> i" "py_slice text i (i + int (length sub)) = sub"
  shows "occurs_at text sub (nat i) \<and> nat i + length sub \<le> length text"
proof -
  let ?n = "length text" and ?m = "length sub"
  have cs: "clamp_index ?n i = min (nat i) ?n" "clamp_index ?n (i + int ?m) = min (nat i + ?m) ?n"
    using assms(2) by (auto simp: clamp_index_def nat_add_distrib)
  from assms(3) have eq: "take (min (nat i + ?m) ?n - min (nat i) ?n) (drop (min (nat i) ?n) text) = sub"
    by (simp add: py_slice_def Let_def cs)
  then have "length (take (min (nat i + ?m) ?n - min (nat i) ?n) (drop (min (nat i) ?n) text)) = ?m"
    by simp
  moreover have "?m > 0" using assms(1) by simp
  ultimately have le: "nat i + ?m \<le> ?n" by (auto simp: min_def split: if_splits)
  then have "take ?m (drop (nat i) text) = sub" using eq by (simp add: min_def)
  then show ?thesis using le by (simp add: occurs_at_def)
qed

text \<open>
  C5. Locator round-trip: when a non-empty \<open>sub\<close> occurs verbatim at a position
  \<open>i \<ge> 0\<close> of the text (\<open>text[i:i+len(sub)] == sub\<close>), the escape-aware search started
  at \<open>i\<close> returns exactly \<open>(i, i + len(sub))\<close>, and so does the plain search.
\<close>

theorem find_unescaped_round_trip:
  assumes "sub \<noteq> []" "0 \<le> i" "py_slice text i (i + int (length sub)) = sub"
  shows "find_unescaped text sub (Some i) None = Inr (i, i + int (length sub))
       \<and> find_text text sub (Some i) None = (i, i + int (length sub))"
proof -
  from verbatim_slice[OF assms] have occ: "occurs_at text sub (nat i)"
    and le: "nat i + length sub \<le> length text" by auto
  have pos: "0 < length sub" using assms(1) by simp
  have "find_unescaped_loop text sub (int (length text)) (int 0) (if (0::nat) = 0 then -1 else int (nat i)) (int (nat i + 0))
        = Inr (int (nat i), int (nat i + length sub))"
    by (rule loop_verbatim[OF occ le _ pos]) (use le in \<open>simp only: of_nat_le_iff\<close>)
  moreover have "i + int (length sub) \<le> int (length text)" using le assms(2) by linarith
  ultimately have a: "find_unescaped text sub (Some i) None = Inr (i, i + int (length sub))"
    using assms(1,2) by (simp add: find_unescaped_def)
  have "nat i < Suc (length text - length sub)" using le by linarith
  then have "[nat i ..< Suc (length text - length sub)]
             = nat i # [Suc (nat i) ..< Suc (length text - length sub)]"
    by (rule upt_conv_Cons)
  then have "candidates text sub (Some i) None = nat i # [Suc (nat i) ..< Suc (length text - length sub)]"
    using le assms(2) by (simp add: candidates_def find_start_def find_end_def Let_def)
  then have "py_find text sub (Some i) None = i"
    using occ assms(2) by (simp add: py_find_def)
  then have b: "find_text text sub (Some i) None = (i, i + int (length sub))"
    using assms(2) by (simp add: find_text_def Let_def)
  from a b show ?thesis by simp
qed

theorem find_unescaped_round_trip_witness:
  "find_unescaped (ustr ''abcab'') (ustr ''ab'') (Some 3) None = Inr (3, 5)"
  using find_unescaped_round_trip[of "ustr ''ab''" 3 "ustr ''abcab''"]
  by (simp add: ustr_simps py_slice_def clamp_index_def)

text \<open>
  C3 does not hold of the code: the search only tests that the target character is some
  value of the table and then accepts the first key the text starts with, whatever that
  key decodes to. The target \<open><\<close> is found in the text \<open>&amp;\<close> (which decodes to
  \<open>&\<close>), and the target \<open>*\<close> in a text that is one space (the key of the non-breaking
  space).
\<close>

theorem find_unescaped_wrong_entity:
  "find_unescaped (ustr ''&amp;'') (ustr ''<'') None None = Inr (0, 5)
   \<and> map_of escape_table (ustr ''&amp;'') = Some (ustr ''&'')
   \<and> find_unescaped (ustr '' '') (ustr ''*'') None None = Inr (0, 1)
   \<and> map_of escape_table (ustr '' '') = Some [160]"
  by (simp add: find_unescaped_def find_unescaped_loop.simps ustr_simps increment_at_def py_getitem_def
        escape_table_values_def escape_table_keys_def escape_table_def backslash_escapes_def
        entities_def py_slice_from_def clamp_index_def py_startswith_def find_start_def
        occurs_at_def)

section \<open>Scanning loops: proofs\<close>

lemma py_getitem_in_range:
  "0 \<le> i \<Longrightarrow> i < int (length xs) \<Longrightarrow> py_getitem xs i = Inr (xs ! nat i)"
  by (simp add: py_getitem_def)

lemma py_getitem_beyond:
  "int (length xs) \<le> i \<Longrightarrow> py_getitem xs i = Inl IndexError"
  by (simp add: py_getitem_def)

lemma advance_until_space_no_space:
  assumes "0 \<le> i" "\<forall>j. i \<le> j \<and> j < int (length text) \<longrightarrow> \<not> isspace (text ! nat j)"
  shows "advance_until_space text i = Inl IndexError"
  using assms
proof (induction "nat (int (length text) - i)" arbitrary: i)
  case 0
  then have "int (length text) \<le> i" by simp
  then show ?case
    by (subst advance_until_space.simps) (simp add: py_getitem_beyond)
next
  case (Suc n)
  then have lt: "i < int (length text)" by linarith
  have "advance_until_space text i = advance_until_space text (i + 1)"
    using Suc.prems lt by (subst advance_until_space.simps) (simp add: py_getitem_in_range)
  also have "\<dots> = Inl IndexError"
    by (rule Suc.hyps(1)) (use Suc in auto)
  finally show ?case .
qed

lemma advance_until_space_finds:
  assumes "0 \<le> i" "i \<le> s" "s < int (length text)" "isspace (text ! nat s)"
    "\<forall>j. i \<le> j \<and> j < s \<longrightarrow> \<not> isspace (text ! nat j)"
  shows "advance_until_space text i = Inr s"
  using assms
proof (induction "nat (s - i)" arbitrary: i)
  case 0
  then have "i = s" by simp
  then show ?case
    using 0 by (subst advance_until_space.simps) (simp add: py_getitem_in_range)
next
  case (Suc n)
  then have lt: "i < s" by linarith
  have "advance_until_space text i = advance_until_space text (i + 1)"
    using Suc.prems lt by (subst advance_until_space.simps) (simp add: py_getitem_in_range)
  also have "\<dots> = Inr s"
    by (rule Suc.hyps(1)) (use Suc lt in auto)
  finally show ?case .
qed

lemma advance_while_space_to_end:
  assumes "0 \<le> i" "\<forall>j. i \<le> j \<and> j < int (length text) \<longrightarrow> isspace (text ! nat j)"
  shows "advance_while_space text i = Inl IndexError"
  using assms
proof (induction "nat (int (length text) - i)" arbitrary: i)
  case 0
  then have "int (length text) \<le> i" by simp
  then show ?case
    by (subst advance_while_space.simps) (simp add: py_getitem_beyond)
next
  case (Suc n)
  then have lt: "i < int (length text)" by linarith
  have "advance_while_space text i = advance_while_space text (i + 1)"
    using Suc.prems lt by (subst advance_while_space.simps) (simp add: py_getitem_in_range)
  also have "\<dots> = Inl IndexError"
    by (rule Suc.hyps(1)) (use Suc in auto)
  finally show ?case .
qed

lemma advance_until_space_below:
  "index < - int (length text) \<Longrightarrow> advance_until_space text index = Inl IndexError"
  by (subst advance_until_space.simps) (simp add: py_getitem_def)

text \<open>
  C10, as amended. \<open>walk_spaces\<close> is partial. From a cursor that is non-negative, or
  below \<open>-len(text)\<close>, when the rest of the text \<open>text[index:]\<close> holds no whitespace
  character, or when the first whitespace character at or after the cursor starts a run
  of whitespace that reaches the end of the text, it raises IndexError instead of
  returning a span.
\<close>

theorem walk_spaces_index_error:
  assumes "0 \<le> index \<or> index < - int (length text)"
    and "(\<forall>c \<in> set (py_slice_from text index). \<not> isspace c)
         \<or> (\<exists>s. index \<le> s \<and> s < int (length text)
                \<and> (\<forall>c \<in> set (py_slice text index s). \<not> isspace c)
                \<and> (\<forall>c \<in> set (py_slice_from text s). isspace c))"
  shows "walk_spaces text index = Inl IndexError"
proof (cases "0 \<le> index")
  case False
  with assms(1) have "index < - int (length text)" by simp
  from advance_until_space_below[OF this] show ?thesis by (simp add: walk_spaces_def)
next
  case nonneg: True
  from assms(2) show ?thesis
  proof (elim disjE exE conjE)
    assume "\<forall>c \<in> set (py_slice_from text index). \<not> isspace c"
    then have "\<forall>j. index \<le> j \<and> j < int (length text) \<longrightarrow> \<not> isspace (text ! nat j)"
      using py_slice_from_nth_mem[OF nonneg] by blast
    from advance_until_space_no_space[OF nonneg this]
    show ?thesis by (simp add: walk_spaces_def)
  next
    fix s
    assume s: "index \<le> s" "s < int (length text)"
      and before: "\<forall>c \<in> set (py_slice text index s). \<not> isspace c"
      and after: "\<forall>c \<in> set (py_slice_from text s). isspace c"
    have s0: "0 \<le> s" using nonneg s(1) by simp
    have a: "\<forall>j. s \<le> j \<and> j < int (length text) \<longrightarrow> isspace (text ! nat j)"
      using py_slice_from_nth_mem[OF s0] after by blast
    have b: "\<forall>j. index \<le> j \<and> j < s \<longrightarrow> \<not> isspace (text ! nat j)"
    proof (intro allI impI)
      fix j assume j: "index \<le> j \<and> j < s"
      have "text ! nat j \<in> set (py_slice text index s)"
        by (rule py_slice_nth_mem) (use nonneg j s in auto)
      with before show "\<not> isspace (text ! nat j)" by blast
    qed
    have "isspace (text ! nat s)" using a s by simp
    from advance_until_space_finds[OF nonneg s(1,2) this b]
         advance_while_space_to_end[OF s0 a]
    show ?thesis by (simp add: walk_spaces_def)
  qed
qed

theorem walk_spaces_index_error_witness:
  "walk_spaces (ustr ''ab'') 0 = Inl IndexError \<and> walk_spaces (ustr ''a  '') 0 = Inl IndexError
   \<and> walk_spaces (ustr ''a '') (-3) = Inl IndexError"
proof -
  have h1: "\<forall>c \<in> set (py_slice_from (ustr ''ab'') 0). \<not> isspace c"
    by (simp add: ustr_simps py_slice_from_def clamp_index_def isspace_def)
  have h2: "\<exists>s. (0::int) \<le> s \<and> s < int (length (ustr ''a  ''))
                \<and> (\<forall>c \<in> set (py_slice (ustr ''a  '') 0 s). \<not> isspace c)
                \<and> (\<forall>c \<in> set (py_slice_from (ustr ''a  '') s). isspace c)"
    by (rule exI[of _ 1])
       (simp add: ustr_simps py_slice_from_def py_slice_def clamp_index_def isspace_def)
  have h3: "\<exists>s. (-3::int) \<le> s \<and> s < int (length (ustr ''a ''))
                \<and> (\<forall>c \<in> set (py_slice (ustr ''a '') (-3) s). \<not> isspace c)
                \<and> (\<forall>c \<in> set (py_slice_from (ustr ''a '') s). isspace c)"
    by (rule exI[of _ 1])
       (simp add: ustr_simps py_slice_from_def py_slice_def clamp_index_def isspace_def)
  have z: "(0::int) \<le> 0 \<or> (0::int) < - int (length (ustr ''ab''))" by simp
  have z2: "(0::int) \<le> 0 \<or> (0::int) < - int (length (ustr ''a  ''))" by simp
  have z3: "(0::int) \<le> -3 \<or> (-3::int) < - int (length (ustr ''a ''))" by (simp add: ustr_simps)
  show ?thesis
    using walk_spaces_index_error[OF z disjI1[OF h1]] walk_spaces_index_error[OF z2 disjI2[OF h2]]
      walk_spaces_index_error[OF z3 disjI2[OF h3]]
    by simp
qed

text \<open>
  C10 as stated fails for a negative cursor inside the text, where indexing wraps around to
  the start of the text. In \<open>ab \<close> from the cursor -1 the whitespace run reaches the end
  of the text and \<open>walk_spaces\<close> returns \<open>(-1, 0)\<close>; in \<open> a\<close> from the cursor -1 the rest
  of the text \<open>a\<close> holds no whitespace and it returns \<open>(0, 1)\<close>.
\<close>

theorem walk_spaces_negative_cursor:
  "walk_spaces (ustr ''ab '') (-1) = Inr (-1, 0, [])
   \<and> py_slice_from (ustr ''ab '') (-1) = [32] \<and> isspace 32
   \<and> walk_spaces (ustr '' a'') (-1) = Inr (0, 1, [])
   \<and> py_slice_from (ustr '' a'') (-1) = [97] \<and> \<not> isspace 97"
  by (simp add: walk_spaces_def advance_until_space.simps advance_while_space.simps
        py_getitem_def py_slice_from_def clamp_index_def ustr_simps isspace_def)

section \<open>Tree walker: proofs\<close>

lemma advance_while_space_stops:
  "advance_while_space text i = Inr s \<Longrightarrow>
     i \<le> s \<and> (\<exists>c. py_getitem text s = Inr c \<and> \<not> isspace c)"
proof (induction "text" i rule: advance_while_space.induct)
  case (1 tx i)
  show ?case
  proof (cases "py_getitem tx i")
    case (Inl e)
    with "1.prems" show ?thesis by (subst (asm) advance_while_space.simps) simp
  next
    case (Inr c)
    show ?thesis
    proof (cases "isspace c")
      case True
      with Inr "1.prems" have "advance_while_space tx (i + 1) = Inr s"
        by (subst (asm) advance_while_space.simps) simp
      from "1.IH"[OF Inr True this] show ?thesis by auto
    next
      case False
      with Inr "1.prems" have "s = i"
        by (subst (asm) advance_while_space.simps) simp
      with Inr False show ?thesis by simp
    qed
  qed
qed

lemma retreat_while_space_stops:
  "retreat_while_space text i = Inr e \<Longrightarrow>
     e \<le> i \<and> (\<exists>c. py_getitem text (e - 1) = Inr c \<and> \<not> isspace c)"
proof (induction "text" i rule: retreat_while_space.induct)
  case (1 tx i)
  show ?case
  proof (cases "py_getitem tx (i - 1)")
    case (Inl e)
    with "1.prems" show ?thesis by (subst (asm) retreat_while_space.simps) simp
  next
    case (Inr c)
    show ?thesis
    proof (cases "isspace c")
      case True
      with Inr "1.prems" have "retreat_while_space tx (i - 1) = Inr e"
        by (subst (asm) retreat_while_space.simps) simp
      from "1.IH"[OF Inr True this] show ?thesis by auto
    next
      case False
      with Inr "1.prems" have "e = i"
        by (subst (asm) retreat_while_space.simps) simp
      with Inr False show ?thesis by simp
    qed
  qed
qed

lemma advance_while_space_fixed:
  "py_getitem text s = Inr c \<Longrightarrow> \<not> isspace c \<Longrightarrow> advance_while_space text s = Inr s"
  by (subst advance_while_space.simps) simp

lemma retreat_while_space_fixed:
  "py_getitem text (e - 1) = Inr c \<Longrightarrow> \<not> isspace c \<Longrightarrow> retreat_while_space text e = Inr e"
  by (subst retreat_while_space.simps) simp

lemma remove_spaces_result:
  assumes "remove_spaces text start e = Inr (s', e')"
  shows "start \<le> s' \<and> e' \<le> e
       \<and> (\<exists>c. py_getitem text s' = Inr c \<and> \<not> isspace c)
       \<and> (\<exists>c. py_getitem text (e' - 1) = Inr c \<and> \<not> isspace c)
       \<and> remove_spaces text s' e' = Inr (s', e')"
proof -
  from assms have a: "advance_while_space text start = Inr s'" and r: "retreat_while_space text e = Inr e'"
    by (auto simp: remove_spaces_def split: sum.splits)
  from advance_while_space_stops[OF a] obtain c where c: "start \<le> s'" "py_getitem text s' = Inr c" "\<not> isspace c"
    by auto
  from retreat_while_space_stops[OF r] obtain d where d: "e' \<le> e" "py_getitem text (e' - 1) = Inr d" "\<not> isspace d"
    by auto
  have "remove_spaces text s' e' = Inr (s', e')"
    using advance_while_space_fixed[OF c(2,3)] retreat_while_space_fixed[OF d(2,3)]
    by (simp add: remove_spaces_def)
  with c d show ?thesis by blast
qed

lemma non_spaced_not_paragraph: "t \<in> set non_spaced_types \<Longrightarrow> t \<notin> set paragraph_types"
  by (auto simp: non_spaced_types_def paragraph_types_def ustr_simps)

lemma save_result_Some:
  assumes "save_result text t start e extras st = Inr (Some r, st')"
  shows "0 \<le> start \<and> start < e \<and> result_type r = t
       \<and> mapper_results st' = mapper_results st @ [r] \<and> mapper_warnings st' = mapper_warnings st
       \<and> (t \<in> set non_spaced_types \<longrightarrow>
            remove_spaces text start e = Inr (result_start r, result_end r) \<and> result_extras r = extras)
       \<and> (t \<in> set paragraph_types \<longrightarrow>
            result_start r = fst (get_line text start) \<and> result_end r = snd (get_line text e))
       \<and> (t \<notin> set non_spaced_types \<and> t \<notin> set paragraph_types \<longrightarrow>
            result_start r = start \<and> result_end r = e \<and> result_extras r = extras)"
  using assms non_spaced_not_paragraph[of t]
  by (auto simp: save_result_def Let_def split: if_splits sum.splits)

lemma walk_one_with_Some:
  assumes "walk_one_with w text index entry st = Inr (Some r, st')"
  shows "\<exists>k fn c start e extras st1.
           getitem_str entry (ustr ''t'') = Inr (JStr k) \<and> map_of (types w text) k = Some fn
           \<and> dict_get entry (ustr ''c'') = Inr c
           \<and> fn index c st = Inr ((start, e, extras), st1)
           \<and> save_result text k start e extras st1 = Inr (Some r, st')"
  using assms
  by (auto simp: walk_one_with_def split: sum.splits json.splits option.splits)

lemma walk_one_Some:
  assumes "walk_one depth text index entry st = Inr (Some r, st')"
  shows "\<exists>d k fn c start e extras st1.
           depth = Suc d
           \<and> getitem_str entry (ustr ''t'') = Inr (JStr k)
           \<and> map_of (types (walk_one d text) text) k = Some fn
           \<and> dict_get entry (ustr ''c'') = Inr c
           \<and> fn index c st = Inr ((start, e, extras), st1)
           \<and> save_result text k start e extras st1 = Inr (Some r, st')"
proof (cases depth)
  case 0
  with assms show ?thesis by simp
next
  case (Suc d)
  with assms have "walk_one_with (walk_one d text) text index entry st = Inr (Some r, st')" by simp
  from walk_one_with_Some[OF this] Suc show ?thesis by blast
qed

text \<open>
  C9. Trim idempotence: a result of a non-spaced kind that \<open>walk_one\<close> appended to the
  result list has non-whitespace boundary characters \<open>text[start]\<close> and \<open>text[end - 1]\<close>
  (Python indexing), so removing extraneous spaces from its recorded span again leaves
  start and end unchanged.
\<close>

theorem trim_idempotence:
  assumes "walk_one depth text index entry st = Inr (Some r, st')"
    and "result_type r \<in> set non_spaced_types"
  shows "last (mapper_results st') = r
       \<and> (\<exists>c. py_getitem text (result_start r) = Inr c \<and> \<not> isspace c)
       \<and> (\<exists>c. py_getitem text (result_end r - 1) = Inr c \<and> \<not> isspace c)
       \<and> remove_spaces text (result_start r) (result_end r) = Inr (result_start r, result_end r)"
proof -
  from walk_one_Some[OF assms(1)] obtain k start e extras st1 where
    sr: "save_result text k start e extras st1 = Inr (Some r, st')" by blast
  from save_result_Some[OF sr] assms(2) have
    "remove_spaces text start e = Inr (result_start r, result_end r)"
    "mapper_results st' = mapper_results st1 @ [r]" by auto
  with remove_spaces_result[of "text" start e "result_start r" "result_end r"]
  show ?thesis by simp
qed

section \<open>Tree walker: evaluation and dispatch\<close>

theorem trim_idempotence_witness:
  "remove_spaces (ustr ''a b'') 0 1 = Inr (0, 1)"
proof -
  have w: "walk_one (Suc 0) (ustr ''a b'') 0
             (JObj [(ustr ''t'', JStr (ustr ''Str'')), (ustr ''c'', JStr (ustr ''a''))])
             \<lparr>mapper_results = [], mapper_warnings = []\<rparr>
           = Inr (Some \<lparr>result_type = ustr ''Str'', result_start = 0, result_end = 1, result_extras = []\<rparr>,
                  \<lparr>mapper_results = [\<lparr>result_type = ustr ''Str'', result_start = 0, result_end = 1,
                                       result_extras = []\<rparr>],
                   mapper_warnings = []\<rparr>)"
    by code_simp
  have n: "result_type \<lparr>result_type = ustr ''Str'', result_start = 0, result_end = 1, result_extras = []\<rparr>
           \<in> set non_spaced_types"
    by (simp add: non_spaced_types_def)
  from trim_idempotence[OF w n] show ?thesis by simp
qed





lemma walk_multiple_loop_later_entries:
  "0 < i \<Longrightarrow> 0 < j \<Longrightarrow>
   walk_multiple_loop w text i es start e results st = walk_multiple_loop w text j es start e results st"
proof (induction es arbitrary: i j start e results st)
  case Nil
  show ?case by simp
next
  case (Cons x xs)
  have ih: "\<And>start e results st.
      walk_multiple_loop w text (Suc i) xs start e results st
      = walk_multiple_loop w text (Suc j) xs start e results st"
    by (rule Cons.IH) simp_all
  from Cons.prems show ?case
    by (auto simp: ih Let_def split: sum.splits option.splits prod.splits)
qed

lemma walk_multiple_loop_start_kept:
  "0 < i \<Longrightarrow> walk_multiple_loop w text i es start e results st = Inr ((s', e'), st') \<Longrightarrow> s' = start"
proof (induction es arbitrary: i e results st)
  case Nil
  then show ?case by simp
next
  case (Cons x xs)
  have ih: "\<And>e results st. walk_multiple_loop w text (Suc i) xs start e results st = Inr ((s', e'), st')
      \<Longrightarrow> s' = start"
    by (rule Cons.IH) simp_all
  from Cons.prems ih show ?case
    by (auto simp: Let_def split: sum.splits option.splits prod.splits if_splits)
qed

text \<open>
  C6, as amended. A node whose tag is a string, number, boolean or null that is not a key
  of the dispatch table yields no result: \<open>walk_one\<close> returns \<open>None\<close>, appends nothing
  to the result list and emits one warning. In the loop of \<open>walk_multiple\<close> the traversal
  goes on with the remaining siblings from the same cursor, and the node hands no start
  or end of its own to the container. It still counts as an entry: when it is not the
  first entry, the container is walked as without it; when it is the first entry, no later
  sibling is the first any more, and the container's start stays at the cursor instead of
  being taken from a sibling.
\<close>

theorem unknown_tag_skipped:
  assumes "getitem_str entry (ustr ''t'') = Inr t"
    and "hashable t"
    and "\<forall>k. t = JStr k \<longrightarrow> map_of (types (walk_one depth text) text) k = None"
  shows "walk_one (Suc depth) text index entry st = Inr (None, warn (UnknownType t) st)
       \<and> mapper_results (warn (UnknownType t) st) = mapper_results st
       \<and> mapper_warnings (warn (UnknownType t) st) = mapper_warnings st @ [UnknownType t]
       \<and> walk_multiple_loop (walk_one (Suc depth) text) text i (entry # entries) start e results st
         = walk_multiple_loop (walk_one (Suc depth) text) text (Suc i) entries start e results
             (warn (UnknownType t) st)
       \<and> (0 < i \<longrightarrow>
            walk_multiple_loop (walk_one (Suc depth) text) text i (entry # entries) start e results st
            = walk_multiple_loop (walk_one (Suc depth) text) text i entries start e results
                (warn (UnknownType t) st))
       \<and> (walk_multiple (walk_one (Suc depth) text) text index (JArr (entry # entries)) padding st
            = Inr ((s, e', x), st') \<longrightarrow> s = index - padding)"
proof -
  have w: "walk_one (Suc depth) text index entry st = Inr (None, warn (UnknownType t) st)" for index st
    using assms by (cases t) (simp_all add: walk_one_with_def)
  have step: "walk_multiple_loop (walk_one (Suc depth) text) text i (entry # entries) start e results st
         = walk_multiple_loop (walk_one (Suc depth) text) text (Suc i) entries start e results
             (warn (UnknownType t) st)" for i start e results st
    by (simp add: w del: walk_one.simps)
  have later: "walk_multiple_loop (walk_one (Suc depth) text) text i (entry # entries) start e results st
            = walk_multiple_loop (walk_one (Suc depth) text) text i entries start e results
                (warn (UnknownType t) st)" if "0 < i"
    unfolding step using that by (intro walk_multiple_loop_later_entries) simp_all
  have first: "s = index - padding"
    if r: "walk_multiple (walk_one (Suc depth) text) text index (JArr (entry # entries)) padding st
            = Inr ((s, e', x), st')"
  proof -
    from r obtain s1 e1 where
      l: "walk_multiple_loop (walk_one (Suc depth) text) text 0 (entry # entries) index index [] st
          = Inr ((s1, e1), st')" and s: "s = s1 - padding"
      by (auto simp: walk_multiple_def simp del: walk_multiple_loop.simps walk_one.simps split: sum.splits)
    from l have "walk_multiple_loop (walk_one (Suc depth) text) text (Suc 0) entries index index []
                   (warn (UnknownType t) st) = Inr ((s1, e1), st')"
      unfolding step .
    from walk_multiple_loop_start_kept[OF _ this] s show ?thesis by simp
  qed
  from w step later first show ?thesis by (simp add: warn_def del: walk_one.simps walk_multiple_loop.simps)
qed

theorem unknown_tag_skipped_witness:
  "walk_one (Suc 0) (ustr ''a'') 0 (JObj [(ustr ''t'', JStr (ustr ''Foo''))])
     \<lparr>mapper_results = [], mapper_warnings = []\<rparr>
   = Inr (None, \<lparr>mapper_results = [], mapper_warnings = [UnknownType (JStr (ustr ''Foo''))]\<rparr>)"
proof -
  have t: "getitem_str (JObj [(ustr ''t'', JStr (ustr ''Foo''))]) (ustr ''t'') = Inr (JStr (ustr ''Foo''))"
    by simp
  have h: "hashable (JStr (ustr ''Foo''))" by simp
  have n: "\<forall>k. JStr (ustr ''Foo'') = JStr k \<longrightarrow>
             map_of (types (walk_one 0 (ustr ''a'')) (ustr ''a'')) k = None"
    by (simp add: types_def block_types_def inline_types_def ustr_simps)
  from unknown_tag_skipped[OF t h n, of 0 "\<lparr>mapper_results = [], mapper_warnings = []\<rparr>"]
  show ?thesis by (simp add: warn_def)
qed

text \<open>
  C6 as stated fails. In the text \<open>xa\<close> the entries \<open>[Foo, Str a]\<close> give the container the
  start 0, and the entries \<open>[Str a]\<close> the start 1: the unknown first node keeps the start
  of \<open>Str a\<close> from being inherited. A node whose tag is a list is not skipped with a
  warning either: the lookup of the tag raises TypeError.
\<close>

theorem unknown_first_node_changes_start:
  "walk_multiple (walk_one (Suc 0) (ustr ''xa'')) (ustr ''xa'') 0
     (JArr [JObj [(ustr ''t'', JStr (ustr ''Foo''))],
            JObj [(ustr ''t'', JStr (ustr ''Str'')), (ustr ''c'', JStr (ustr ''a''))]])
     0 \<lparr>mapper_results = [], mapper_warnings = []\<rparr>
   = Inr ((0, 2, []),
          \<lparr>mapper_results = [\<lparr>result_type = ustr ''Str'', result_start = 1, result_end = 2,
                               result_extras = []\<rparr>],
           mapper_warnings = [UnknownType (JStr (ustr ''Foo''))]\<rparr>)
   \<and> walk_multiple (walk_one (Suc 0) (ustr ''xa'')) (ustr ''xa'') 0
     (JArr [JObj [(ustr ''t'', JStr (ustr ''Str'')), (ustr ''c'', JStr (ustr ''a''))]])
     0 \<lparr>mapper_results = [], mapper_warnings = []\<rparr>
   = Inr ((1, 2, []),
          \<lparr>mapper_results = [\<lparr>result_type = ustr ''Str'', result_start = 1, result_end = 2,
                               result_extras = []\<rparr>],
           mapper_warnings = []\<rparr>)
   \<and> walk_one (Suc 0) (ustr ''xa'') 0 (JObj [(ustr ''t'', JArr [])])
        \<lparr>mapper_results = [], mapper_warnings = []\<rparr> = Inl TypeError"
  by code_simp

text \<open>
  C2 does not hold of the code. On the one-line link \<open>[a](u "T")\<close>, with the URL \<open>u\<close>
  located at 4..5 and the title \<open>T\<close> at 7..8, \<open>walk_link\<close> builds the dictionary with
  the URL and title bounds in its local variable \<open>extras\<close> and then returns a dictionary
  of the content bounds alone: the result's extras hold no \<open>url_start\<close> and no
  \<open>title_start\<close>. The result ends at 9, one past the title, so the closing parenthesis at
  index 9 is outside it.
\<close>

theorem walk_link_drops_url_and_title:
  "walk_one (Suc (Suc 0)) (ustr ''[a](u '' @ [34] @ ustr ''T'' @ [34] @ ustr '')'') 0
     (JObj [(ustr ''t'', JStr (ustr ''Link'')),
            (ustr ''c'', JArr [JArr [JStr [], JArr [], JArr []],
                               JArr [JObj [(ustr ''t'', JStr (ustr ''Str'')), (ustr ''c'', JStr (ustr ''a''))]],
                               JArr [JStr (ustr ''u''), JStr (ustr ''T'')]])])
     \<lparr>mapper_results = [], mapper_warnings = []\<rparr>
   = Inr (Some \<lparr>result_type = ustr ''Link'', result_start = 0, result_end = 9,
                result_extras = [(ustr ''content_start'', JInt 1), (ustr ''content_end'', JInt 2)]\<rparr>,
          \<lparr>mapper_results =
             [\<lparr>result_type = ustr ''Str'', result_start = 1, result_end = 2, result_extras = []\<rparr>,
              \<lparr>result_type = ustr ''Link'', result_start = 0, result_end = 9,
               result_extras = [(ustr ''content_start'', JInt 1), (ustr ''content_end'', JInt 2)]\<rparr>],
           mapper_warnings = []\<rparr>)
   \<and> link_extras 1 2 4 5 7 8
       = [(ustr ''content_start'', JInt 1), (ustr ''content_end'', JInt 2),
          (ustr ''url_start'', JInt 4), (ustr ''url_end'', JInt 5),
          (ustr ''title_start'', JInt 7), (ustr ''title_end'', JInt 8)]
   \<and> find_text (ustr ''[a](u '' @ [34] @ ustr ''T'' @ [34] @ ustr '')'') (ustr ''u'') (Some 2) None = (4, 5)
   \<and> find_text (ustr ''[a](u '' @ [34] @ ustr ''T'' @ [34] @ ustr '')'') (ustr ''T'') (Some 2) None = (7, 8)
   \<and> int (length (ustr ''[a](u '' @ [34] @ ustr ''T'' @ [34] @ ustr '')'')) = 10"
  by code_simp

text \<open>
  C1 does not hold of the code. \<open>walk_one\<close> discards a span with a negative bound or with
  \<open>start >= end\<close> as an invalid result, and then removes the extraneous spaces with no
  check after it. For the text \<open>- \*\<close> and its tree \<open>BulletList [[Plain [Str "*"]]]\<close> the
  escape-aware search locates the \<open>*\<close> at the space, 1..2, and the result is appended
  with start 2 and end 1. In the text \<open>  a \<close> the node \<open>Str " "\<close> is located at 0..1 and
  appended with start 2 and end -1.
\<close>

theorem walk_appends_invalid_span:
  "walk (Suc (Suc (Suc 0))) ([45, 32, 92, 42])
     (JObj [(ustr ''blocks'',
             JArr [JObj [(ustr ''t'', JStr (ustr ''BulletList'')),
                         (ustr ''c'', JArr [JArr [JObj [(ustr ''t'', JStr (ustr ''Plain'')),
                              (ustr ''c'', JArr [JObj [(ustr ''t'', JStr (ustr ''Str'')),
                                                       (ustr ''c'', JStr [42])]])]]])]])])
   = Inr [\<lparr>result_type = ustr ''Str'', result_start = 2, result_end = 1, result_extras = []\<rparr>]
   \<and> walk_one (Suc 0) (ustr ''  a '') 0
        (JObj [(ustr ''t'', JStr (ustr ''Str'')), (ustr ''c'', JStr (ustr '' ''))])
        \<lparr>mapper_results = [], mapper_warnings = []\<rparr>
     = Inr (Some \<lparr>result_type = ustr ''Str'', result_start = 2, result_end = -1, result_extras = []\<rparr>,
            \<lparr>mapper_results = [\<lparr>result_type = ustr ''Str'', result_start = 2, result_end = -1,
                                 result_extras = []\<rparr>],
             mapper_warnings = []\<rparr>)
   \<and> walk_str (ustr ''  a '') 0 (JStr (ustr '' '')) = Inr (0, 1, [])"
  by code_simp

section \<open>Bounds of the located spans\<close>

lemma advance_while_space_skips:
  "advance_while_space text i = Inr s \<Longrightarrow> i \<le> p \<Longrightarrow> p < s \<Longrightarrow>
     \<exists>c. py_getitem text p = Inr c \<and> isspace c"
proof (induction "text" i rule: advance_while_space.induct)
  case (1 tx i)
  show ?case
  proof (cases "py_getitem tx i")
    case (Inl e)
    with "1.prems" show ?thesis by (subst (asm) advance_while_space.simps) simp
  next
    case (Inr c)
    show ?thesis
    proof (cases "isspace c")
      case True
      with Inr "1.prems" have r: "advance_while_space tx (i + 1) = Inr s"
        by (subst (asm) advance_while_space.simps) simp
      show ?thesis
      proof (cases "p = i")
        case True
        with Inr \<open>isspace c\<close> show ?thesis by simp
      next
        case False
        with "1.prems" have "i + 1 \<le> p" by simp
        from "1.IH"[OF Inr True r this "1.prems"(3)] show ?thesis .
      qed
    next
      case False
      with Inr "1.prems" have "s = i"
        by (subst (asm) advance_while_space.simps) simp
      with "1.prems" show ?thesis by simp
    qed
  qed
qed

lemma retreat_while_space_skips:
  "retreat_while_space text i = Inr e \<Longrightarrow> e \<le> p \<Longrightarrow> p < i \<Longrightarrow>
     \<exists>c. py_getitem text p = Inr c \<and> isspace c"
proof (induction "text" i rule: retreat_while_space.induct)
  case (1 tx i)
  show ?case
  proof (cases "py_getitem tx (i - 1)")
    case (Inl x)
    with "1.prems" show ?thesis by (subst (asm) retreat_while_space.simps) simp
  next
    case (Inr c)
    show ?thesis
    proof (cases "isspace c")
      case True
      with Inr "1.prems" have r: "retreat_while_space tx (i - 1) = Inr e"
        by (subst (asm) retreat_while_space.simps) simp
      show ?thesis
      proof (cases "p = i - 1")
        case True
        with Inr \<open>isspace c\<close> show ?thesis by simp
      next
        case False
        with "1.prems" have "p < i - 1" by simp
        from "1.IH"[OF Inr True r "1.prems"(2) this] show ?thesis .
      qed
    next
      case False
      with Inr "1.prems" have "e = i"
        by (subst (asm) retreat_while_space.simps) simp
      with "1.prems" show ?thesis by simp
    qed
  qed
qed

lemma py_getitem_Inr_range:
  "py_getitem xs i = Inr c \<Longrightarrow> - int (length xs) \<le> i \<and> i < int (length xs)"
  by (auto simp: py_getitem_def Let_def split: if_splits)

lemma candidates_range:
  "i \<in> set (candidates text sub a b) \<Longrightarrow>
     find_start (length text) a \<le> i \<and> i + length sub \<le> find_end (length text) b"
  by (auto simp: candidates_def Let_def split: if_splits)

lemma find_end_le: "find_end n b \<le> n"
  by (auto simp: find_end_def clamp_index_def split: option.splits)

lemma py_find_range:
  "py_find text sub a b = -1
   \<or> (int (find_start (length text) a) \<le> py_find text sub a b
      \<and> py_find text sub a b + int (length sub) \<le> int (length text))"
proof (cases "List.find (occurs_at text sub) (candidates text sub a b)")
  case None
  then show ?thesis by (simp add: py_find_def)
next
  case (Some i)
  then have "i \<in> set (candidates text sub a b)"
    by (auto simp: find_Some_iff)
  from candidates_range[OF this] find_end_le[of "length text" b] Some
  show ?thesis by (auto simp: py_find_def)
qed

lemma py_rfind_range:
  "py_rfind text sub a b = -1
   \<or> (0 \<le> py_rfind text sub a b
      \<and> py_rfind text sub a b + int (length sub) \<le> int (find_end (length text) b))"
proof (cases "List.find (occurs_at text sub) (rev (candidates text sub a b))")
  case None
  then show ?thesis by (simp add: py_rfind_def)
next
  case (Some i)
  then obtain k where "k < length (rev (candidates text sub a b))" "i = rev (candidates text sub a b) ! k"
    by (auto simp: find_Some_iff)
  then have "i \<in> set (rev (candidates text sub a b))" by (metis nth_mem)
  then have "i \<in> set (candidates text sub a b)" by simp
  from candidates_range[OF this] Some
  show ?thesis by (auto simp: py_rfind_def)
qed

lemma find_text_end_le: "snd (find_text text sub a b) \<le> int (length text)"
  using py_find_range[of "text" sub a b] by (auto simp: find_text_def Let_def)

lemma get_line_fst:
  "0 \<le> fst (get_line text i)" "0 \<le> i \<Longrightarrow> fst (get_line text i) \<le> i"
proof -
  have e: "int (find_end (length text) (Some i)) \<le> i" if "0 \<le> i"
    using that by (auto simp: find_end_def clamp_index_def)
  show "0 \<le> fst (get_line text i)"
    using py_rfind_range[of "text" "[newline]" "Some 0" "Some i"] by (auto simp: get_line_def Let_def)
  show "fst (get_line text i) \<le> i" if "0 \<le> i"
    using py_rfind_range[of "text" "[newline]" "Some 0" "Some i"] e[OF that] that
    by (auto simp: get_line_def Let_def)
qed

lemma get_line_snd: "snd (get_line text i) \<le> int (length text)"
  using py_find_range[of "text" "[newline]" "Some (py_rfind text [newline] (Some 0) (Some i) + 1)" None]
  by (auto simp: get_line_def Let_def)

lemma get_line_snd_ge:
  "0 \<le> i \<Longrightarrow> i \<le> int (length text) \<Longrightarrow> i \<le> snd (get_line text i)"
  using get_line_span[of i "text"] by (cases "get_line text i") (simp add: is_line_span_def)

lemma walk_spaces_bounds:
  assumes "walk_spaces text index = Inr (s, e, x)"
  shows "index \<le> s \<and> e < int (length text) \<and> x = []"
proof -
  from assms have a: "advance_until_space text index = Inr s" and b: "advance_while_space text s = Inr e"
    and x: "x = []"
    by (auto simp: walk_spaces_def split: sum.splits)
  from advance_while_space_stops[OF b] obtain c where "py_getitem text e = Inr c" by blast
  from py_getitem_Inr_range[OF this] have "e < int (length text)" by simp
  moreover have "index \<le> s" using a
  proof (induction "text" index rule: advance_until_space.induct)
    case (1 tx i)
    show ?case
    proof (cases "py_getitem tx i")
      case (Inl x)
      with "1.prems" show ?thesis by (subst (asm) advance_until_space.simps) simp
    next
      case (Inr c)
      show ?thesis
      proof (cases "isspace c")
        case False
        with Inr "1.prems" have "advance_until_space tx (i + 1) = Inr s"
          by (subst (asm) advance_until_space.simps) simp
        from "1.IH"[OF Inr False this] show ?thesis by simp
      next
        case True
        with Inr "1.prems" show ?thesis by (subst (asm) advance_until_space.simps) simp
      qed
    qed
  qed
  ultimately show ?thesis using x by simp
qed

lemma first_key_len_le: "first_key_len ks rest \<le> int (length rest)"
  by (induction ks) (auto simp: py_startswith_def find_start_def Let_def)

lemma increment_at_bound:
  assumes "increment_at text sub index sm i = Inr inc" "0 \<le> i"
  shows "i + inc \<le> int (length text)"
proof -
  from assms(1) obtain c where c: "py_getitem text i = Inr c"
    by (auto simp: increment_at_def split: sum.splits)
  from py_getitem_Inr_range[OF c] have lt: "i < int (length text)" by simp
  have "first_key_len escape_table_keys (py_slice_from text i) \<le> int (length text) - i"
    using first_key_len_le[of escape_table_keys "py_slice_from text i"] assms(2) lt
    by (simp add: py_slice_from_def clamp_index_def)
  with assms(1) lt show ?thesis
    by (auto simp: increment_at_def split: sum.splits if_splits)
qed

lemma find_unescaped_loop_end:
  "find_unescaped_loop text sub e index sm i = Inr (a, b) \<Longrightarrow> 0 \<le> i \<Longrightarrow> b \<le> int (length text)"
proof (induction "text" sub e index sm i rule: find_unescaped_loop.induct)
  case (1 tx sub e index sm i)
  show ?case
  proof (cases "i < e")
    case False
    with "1.prems" show ?thesis by (subst (asm) find_unescaped_loop.simps) simp
  next
    case True
    show ?thesis
    proof (cases "increment_at tx sub index sm i")
      case (Inl x)
      with True "1.prems" show ?thesis by (subst (asm) find_unescaped_loop.simps) simp
    next
      case (Inr inc)
      note b = increment_at_bound[OF Inr "1.prems"(2)]
      show ?thesis
      proof (cases "inc > 0")
        case pos: True
        show ?thesis
        proof (cases "index + 1 = int (length sub)")
          case True
          with \<open>i < e\<close> Inr pos "1.prems" b show ?thesis
            by (subst (asm) find_unescaped_loop.simps) (simp add: Let_def)
        next
          case False
          with \<open>i < e\<close> Inr pos "1.prems" have
            r: "find_unescaped_loop tx sub e (index + 1) (if sm = -1 then i else sm) (i + max 1 inc) = Inr (a, b)"
            by (subst (asm) find_unescaped_loop.simps) (simp add: Let_def)
          show ?thesis
            by (rule "1.IH"(1)[OF \<open>i < e\<close> Inr pos refl refl False r]) (use "1.prems" pos in simp)
        qed
      next
        case npos: False
        show ?thesis
        proof (cases "inc < 0 \<and> sm \<ge> 0")
          case True
          with \<open>i < e\<close> Inr npos "1.prems" have
            r: "find_unescaped_loop tx sub e 0 (-1) (sm + max 1 inc) = Inr (a, b)"
            by (subst (asm) find_unescaped_loop.simps) (simp add: Let_def)
          show ?thesis
            by (rule "1.IH"(2)[OF \<open>i < e\<close> Inr npos True r]) (use True in simp)
        next
          case False
          with \<open>i < e\<close> Inr npos "1.prems" have
            r: "find_unescaped_loop tx sub e index sm (i + max 1 inc) = Inr (a, b)"
            by (subst (asm) find_unescaped_loop.simps) (simp add: Let_def)
          show ?thesis
            by (rule "1.IH"(3)[OF \<open>i < e\<close> Inr npos False r]) (use "1.prems" in simp)
        qed
      qed
    qed
  qed
qed

lemma find_unescaped_end:
  "find_unescaped text sub a b = Inr (s, e) \<Longrightarrow> e \<le> int (length text)"
  using find_unescaped_loop_end
  by (fastforce simp: find_unescaped_def Let_def split: if_splits option.splits)

lemma walk_str_end:
  assumes "walk_str text index string = Inr (s, e, x)"
  shows "e \<le> int (length text)"
proof -
  from assms obtain str where str: "string = JStr str"
    by (cases string) (auto simp: walk_str_def)
  show ?thesis
  proof (cases "py_startswith text str index")
    case True
    then have "find_start (length text) (Some index) + length str \<le> length text"
      by (simp add: py_startswith_def Let_def)
    moreover have "index \<le> int (find_start (length text) (Some index))"
      by (simp add: find_start_def)
    ultimately have "index + int (length str) \<le> int (length text)" by linarith
    with assms str True show ?thesis by (simp add: walk_str_def)
  next
    case False
    with assms str find_unescaped_end show ?thesis
      by (fastforce simp: walk_str_def split: sum.splits)
  qed
qed

lemma find_each_end:
  "find_each text i lines start e = (s', e') \<Longrightarrow> e \<le> int (length text) \<Longrightarrow> e' \<le> int (length text)"
proof (induction lines arbitrary: i start e)
  case Nil
  then show ?case by simp
next
  case (Cons l ls)
  obtain s1 e1 where f: "find_text text l (Some e) None = (s1, e1)"
    by (cases "find_text text l (Some e) None")
  have "e1 \<le> int (length text)" using find_text_end_le[of "text" l "Some e" None] f by simp
  with Cons f show ?case by (auto simp: Let_def)
qed

lemma walk_code_block_end:
  assumes "walk_code_block text index attr string = Inr (s, e, x)" "index \<le> int (length text)"
  shows "e \<le> int (length text)"
proof -
  from assms obtain str where str: "string = JStr str"
    by (cases string) (auto simp: walk_code_block_def)
  obtain cs ce where fe: "find_each text 0 (py_split str) index index = (cs, ce)"
    by (cases "find_each text 0 (py_split str) index index")
  from find_each_end[OF fe assms(2)] have ce: "ce \<le> int (length text)" .
  have "snd (get_line_after text ce) \<le> int (length text)"
    by (simp add: get_line_after_def Let_def get_line_snd)
  with assms(1) str fe ce show ?thesis
    by (auto simp: walk_code_block_def Let_def split: prod.splits if_splits)
qed

lemma walk_horizontal_rule_end:
  assumes "walk_horizontal_rule text index = Inr (s, e, x)"
  shows "e \<le> int (length text)"
proof -
  from assms obtain i1 ls le where
    g: "get_line text i1 = (ls, le)" and r: "retreat_while_space text le = Inr e"
    by (auto simp: walk_horizontal_rule_def Let_def split: sum.splits prod.splits)
  from retreat_while_space_stops[OF r] get_line_snd[of "text" i1] g show ?thesis by simp
qed

section \<open>Every appended result is in bounds\<close>

lemma good_walkerD:
  "good_walker text w \<Longrightarrow> w index entry st = Inr (x, st') \<Longrightarrow> index \<le> int (length text) \<Longrightarrow>
   all_ok text st \<Longrightarrow> all_ok text st' \<and> (\<forall>r. x = Some r \<longrightarrow> result_end r \<le> int (length text))"
  unfolding good_walker_def by blast

lemma good_handlerD:
  "good_handler text f \<Longrightarrow> f index c st = Inr ((s, e, x), st') \<Longrightarrow> index \<le> int (length text) \<Longrightarrow>
   all_ok text st \<Longrightarrow> all_ok text st' \<and> e \<le> int (length text)"
  unfolding good_handler_def by blast

lemma safe_handlerD:
  "safe_handler text f \<Longrightarrow> f index c st = Inr ((s, e, x), st') \<Longrightarrow> index \<le> int (length text) \<Longrightarrow>
   all_ok text st \<Longrightarrow> all_ok text st'"
  unfolding safe_handler_def by blast

lemma good_imp_safe: "good_handler text f \<Longrightarrow> safe_handler text f"
  unfolding good_handler_def safe_handler_def by blast

lemma walk_multiple_loop_ok:
  assumes w: "good_walker text w"
  shows "walk_multiple_loop w text i entries start e results st = Inr ((s', e'), st') \<Longrightarrow>
         e \<le> int (length text) \<Longrightarrow> all_ok text st \<Longrightarrow>
         all_ok text st' \<and> e' \<le> int (length text)"
proof (induction entries arbitrary: i start e results st)
  case Nil
  then show ?case by simp
next
  case (Cons entry entries)
  from Cons.prems(1) obtain x st1 where w1: "w e entry st = Inr (x, st1)"
    by (cases "w e entry st") auto
  from good_walkerD[OF w w1 Cons.prems(2,3)] have ok1: "all_ok text st1"
    and xe: "\<forall>r. x = Some r \<longrightarrow> result_end r \<le> int (length text)" by auto
  show ?case
  proof (cases x)
    case None
    with Cons.prems(1) w1
    have "walk_multiple_loop w text (Suc i) entries start e results st1 = Inr ((s', e'), st')"
      by simp
    from Cons.IH[OF this Cons.prems(2) ok1] show ?thesis .
  next
    case (Some r)
    with xe have re: "result_end r \<le> int (length text)" by simp
    from Cons.prems(1) w1 Some obtain ordered where
      "is_last_result_ordered text (results @ [r]) = Inr ordered"
      by (cases "is_last_result_ordered text (results @ [r])") (auto simp: Let_def)
    with Cons.prems(1) w1 Some have
      "(ordered \<and> walk_multiple_loop w text (Suc i) entries
           (if i = 0 then result_start r else start) (result_end r) (results @ [r]) st1
         = Inr ((s', e'), st'))
       \<or> (\<not> ordered \<and> walk_multiple_loop w text (Suc i) entries start e (results @ [r]) st1
         = Inr ((s', e'), st'))"
      by (auto simp: Let_def split: if_splits)
    then show ?thesis
      using Cons.IH[OF _ re ok1] Cons.IH[OF _ Cons.prems(2) ok1] by blast
  qed
qed

lemma walk_multiple_ok:
  assumes "good_walker text w" "walk_multiple w text index entries padding st = Inr ((s, e, x), st')"
    "index \<le> int (length text)" "all_ok text st"
  shows "all_ok text st' \<and> e - padding \<le> int (length text)"
proof -
  from assms(2) obtain es s1 e1 where
    l: "walk_multiple_loop w text 0 es index index [] st = Inr ((s1, e1), st')" and e: "e = e1 + padding"
    by (auto simp: walk_multiple_def split: sum.splits)
  from walk_multiple_loop_ok[OF assms(1) l assms(3,4)] e show ?thesis by simp
qed

lemma good_multiple0:
  "good_walker text w \<Longrightarrow> good_handler text (\<lambda>index entries. walk_multiple w text index entries 0)"
  unfolding good_handler_def using walk_multiple_ok[where padding = 0] by fastforce

lemma safe_multiple:
  "good_walker text w \<Longrightarrow> safe_handler text (\<lambda>index entries. walk_multiple w text index entries padding)"
  unfolding safe_handler_def using walk_multiple_ok by blast

lemma walk_nested_loop_ok:
  assumes f: "good_handler text f"
  shows "walk_nested_loop f i es start e st = Inr ((s', e'), st') \<Longrightarrow>
         e \<le> int (length text) \<Longrightarrow> all_ok text st \<Longrightarrow>
         all_ok text st' \<and> e' \<le> int (length text)"
proof (induction es arbitrary: i start e st)
  case Nil
  then show ?case by simp
next
  case (Cons entries rest)
  from Cons.prems(1) obtain s1 e1 x1 st1 where f1: "f e entries st = Inr ((s1, e1, x1), st1)"
    by (cases "f e entries st") auto
  from good_handlerD[OF f f1 Cons.prems(2,3)] have ok1: "all_ok text st1" and e1: "e1 \<le> int (length text)"
    by auto
  from Cons.prems(1) f1
  have "walk_nested_loop f (Suc i) rest (if i = 0 then s1 else start) e1 st1 = Inr ((s', e'), st')"
    by simp
  from Cons.IH[OF this e1 ok1] show ?case .
qed

lemma good_nested_with: "good_handler text f \<Longrightarrow> good_handler text (walk_nested_with f)"
  unfolding good_handler_def[of "text" "walk_nested_with f"]
proof (intro allI impI)
  fix index c st s e x st'
  assume f: "good_handler text f" and i: "index \<le> int (length text)" and ok: "all_ok text st"
    and r: "walk_nested_with f index c st = Inr ((s, e, x), st')"
  from r obtain es s1 where "walk_nested_loop f 0 es index index st = Inr ((s1, e), st')"
    by (auto simp: walk_nested_with_def split: sum.splits)
  from walk_nested_loop_ok[OF f this i ok] show "all_ok text st' \<and> e \<le> int (length text)" .
qed

lemma good_multiple_nested:
  "good_walker text w \<Longrightarrow> good_handler text (walk_multiple_nested n w text)"
  by (induction n) (auto intro!: good_nested_with good_multiple0)

lemma walk_pairs_loop_ok:
  assumes w: "good_walker text w"
  shows "walk_pairs_loop w text i es start e st = Inr ((s', e'), st') \<Longrightarrow>
         e \<le> int (length text) \<Longrightarrow> all_ok text st \<Longrightarrow>
         all_ok text st' \<and> e' \<le> int (length text)"
proof (induction es arbitrary: i start e st)
  case Nil
  then show ?case by simp
next
  case (Cons p rest)
  from Cons.prems(1) obtain entry entries_nested where u: "unpack2 ValueError p = Inr (entry, entries_nested)"
    by (cases "unpack2 ValueError p") auto
  from Cons.prems(1) u obtain s1 e1 x1 st1 where
    m: "walk_multiple w text e entry 0 st = Inr ((s1, e1, x1), st1)"
    by (cases "walk_multiple w text e entry 0 st") auto
  from walk_multiple_ok[OF w m Cons.prems(2,3)] have ok1: "all_ok text st1" and e1: "e1 \<le> int (length text)"
    by auto
  from Cons.prems(1) u m obtain s2 e2 x2 st2 where
    n: "walk_multiple_nested 1 w text e1 entries_nested st1 = Inr ((s2, e2, x2), st2)"
    by (cases "walk_multiple_nested 1 w text e1 entries_nested st1") auto
  from good_handlerD[OF good_multiple_nested[OF w] n e1 ok1]
  have ok2: "all_ok text st2" and e2: "e2 \<le> int (length text)" by auto
  from Cons.prems(1) u m n
  have "walk_pairs_loop w text (Suc i) rest (if i = 0 then s1 else start) e2 st2 = Inr ((s', e'), st')"
    by simp
  from Cons.IH[OF this e2 ok2] show ?case .
qed

lemma good_pairs:
  assumes w: "good_walker text w"
  shows "good_handler text (walk_multiple_to_multiple_nested w text)"
  unfolding good_handler_def
proof (intro allI impI)
  fix index c st s e x st'
  assume i: "index \<le> int (length text)" and ok: "all_ok text st"
    and r: "walk_multiple_to_multiple_nested w text index c st = Inr ((s, e, x), st')"
  from r obtain es s1 where "walk_pairs_loop w text 0 es index index st = Inr ((s1, e), st')"
    by (auto simp: walk_multiple_to_multiple_nested_def split: sum.splits)
  from walk_pairs_loop_ok[OF w this i ok] show "all_ok text st' \<and> e \<le> int (length text)" .
qed

lemma good_list:
  assumes w: "good_walker text w"
  shows "good_handler text (walk_list w text)"
  unfolding good_handler_def
proof (intro allI impI)
  fix index c st s e x st'
  assume i: "index \<le> int (length text)" and ok: "all_ok text st"
    and r: "walk_list w text index c st = Inr ((s, e, x), st')"
  from r obtain x1 where "walk_multiple_nested 1 w text index c st = Inr ((s, e, x1), st')"
    by (auto simp: walk_list_def split: sum.splits)
  from good_handlerD[OF good_multiple_nested[OF w] this i ok]
  show "all_ok text st' \<and> e \<le> int (length text)" .
qed

lemma get_line_after_snd: "snd (get_line_after text i) \<le> int (length text)"
  by (simp add: get_line_after_def Let_def get_line_snd)

lemma good_header:
  assumes w: "good_walker text w"
  shows "good_handler text (\<lambda>index entries. walk_header w text index level attr entries)"
  unfolding good_handler_def
proof (intro allI impI)
  fix index c st s e x st'
  assume i: "index \<le> int (length text)" and ok: "all_ok text st"
    and r: "walk_header w text index level attr c st = Inr ((s, e, x), st')"
  from r obtain s1 e1 x1 where m: "walk_multiple w text index c 0 st = Inr ((s1, e1, x1), st')"
    and e: "e = e1 \<or> e = snd (get_line_after text e1)"
    by (auto simp: walk_header_def Let_def split: sum.splits prod.splits if_splits)
  from walk_multiple_ok[OF w m i ok] e get_line_after_snd[of "text" e1]
  show "all_ok text st' \<and> e \<le> int (length text)" by auto
qed

lemma good_div:
  assumes w: "good_walker text w"
  shows "good_handler text (\<lambda>index entries. walk_div w text index attr entries)"
  unfolding good_handler_def
proof (intro allI impI)
  fix index c st s e x st'
  assume i: "index \<le> int (length text)" and ok: "all_ok text st"
    and r: "walk_div w text index attr c st = Inr ((s, e, x), st')"
  from r obtain x1 where m: "walk_multiple w text index c 0 st = Inr ((s, e, x1), st')"
    by (auto simp: walk_div_def split: sum.splits)
  from walk_multiple_ok[OF w m i ok] show "all_ok text st' \<and> e \<le> int (length text)" by simp
qed

lemma good_table:
  assumes w: "good_walker text w"
  shows "good_handler text
           (\<lambda>index rows. walk_table w text index caption alignment column_widths header rows)"
  unfolding good_handler_def
proof (intro allI impI)
  fix index c st s e x st'
  assume i: "index \<le> int (length text)" and ok: "all_ok text st"
    and r: "walk_table w text index caption alignment column_widths header c st = Inr ((s, e, x), st')"
  from r obtain hs he hx st1 where
    h: "walk_multiple_nested 1 w text index header st = Inr ((hs, he, hx), st1)"
    by (cases "walk_multiple_nested 1 w text index header st") (auto simp: walk_table_def Let_def)
  from good_handlerD[OF good_multiple_nested[OF w] h i ok]
  have ok1: "all_ok text st1" and he: "he \<le> int (length text)" by auto
  from r h obtain rs re rx st2 where
    rw: "walk_multiple_nested 2 w text he c st1 = Inr ((rs, re, rx), st2)"
    by (cases "walk_multiple_nested 2 w text he c st1") (auto simp: walk_table_def Let_def)
  from good_handlerD[OF good_multiple_nested[OF w] rw he ok1]
  have ok2: "all_ok text st2" and re: "re \<le> int (length text)" by auto
  from r h rw obtain cs ce cx st3 where
    cp: "walk_multiple w text index caption 0 st2 = Inr ((cs, ce, cx), st3)"
    by (cases "walk_multiple w text index caption 0 st2") (auto simp: walk_table_def Let_def)
  from walk_multiple_ok[OF w cp i ok2]
  have ok3: "all_ok text st3" and ce: "ce \<le> int (length text)" by auto
  define e0 where "e0 = (if cs \<noteq> ce then max ce re else re)"
  have e0: "e0 \<le> int (length text)" using ce re by (simp add: e0_def)
  from r h rw cp have "st' = st3 \<and> (e = e0 \<or> e = snd (get_line_after text e0))"
    unfolding walk_table_def Let_def e0_def
    by (simp split: prod.splits if_splits)
  with ok3 e0 get_line_after_snd[of "text" e0]
  show "all_ok text st' \<and> e \<le> int (length text)" by auto
qed

lemma safe_small_caps:
  assumes w: "good_walker text w"
  shows "safe_handler text (walk_small_caps w text)"
  unfolding safe_handler_def
proof (intro allI impI)
  fix index c st s e x st'
  assume i: "index \<le> int (length text)" and ok: "all_ok text st"
    and r: "walk_small_caps w text index c st = Inr ((s, e, x), st')"
  from r obtain s1 e1 x1 where m: "walk_multiple w text index c 0 st = Inr ((s1, e1, x1), st')"
    by (auto simp: walk_small_caps_def Let_def split: sum.splits prod.splits)
  from walk_multiple_ok[OF w m i ok] show "all_ok text st'" by simp
qed

lemma safe_link:
  assumes w: "good_walker text w"
  shows "safe_handler text (\<lambda>index target. walk_link w text index attr entries target)"
  unfolding safe_handler_def
proof (intro allI impI)
  fix index c st s e x st'
  assume i: "index \<le> int (length text)" and ok: "all_ok text st"
    and r: "walk_link w text index attr entries c st = Inr ((s, e, x), st')"
  from r obtain s1 e1 x1 where m: "walk_multiple w text index entries 0 st = Inr ((s1, e1, x1), st')"
    by (auto simp: walk_link_def Let_def split: sum.splits prod.splits)
  from walk_multiple_ok[OF w m i ok] show "all_ok text st'" by simp
qed

lemma re_search_multiline_le: "re_search_multiline r s = Some p \<Longrightarrow> p \<le> length s"
  unfolding re_search_multiline_def by (drule find_upt_Some) simp

lemma safe_note:
  assumes w: "good_walker text w"
  shows "safe_handler text (walk_note w text)"
  unfolding safe_handler_def
proof (intro allI impI)
  fix index c st s e x st'
  assume i: "index \<le> int (length text)" and ok: "all_ok text st"
    and r: "walk_note w text index c st = Inr ((s, e, x), st')"
  from r have "st' = st
     \<or> (\<exists>j s1 e1 x1. j \<le> int (length text) \<and> walk_multiple w text j c 0 st = Inr ((s1, e1, x1), st'))"
    using i re_search_multiline_le
    by (fastforce simp: walk_note_def Let_def split: sum.splits prod.splits if_splits option.splits)
  then show "all_ok text st'"
    using ok walk_multiple_ok[OF w _ _ ok] by blast
qed

lemma all_ok_warn: "all_ok text (warn x st) = all_ok text st"
  by (simp add: all_ok_def warn_def)

lemma save_result_ok:
  assumes sr: "save_result text t s0 e0 extras st = Inr (x, st')" and ok: "all_ok text st"
    and b: "t \<in> set non_spaced_types \<or> e0 \<le> int (length text)"
  shows "all_ok text st' \<and> (\<forall>r. x = Some r \<longrightarrow> result_end r \<le> int (length text))"
proof (cases x)
  case None
  with sr have "st' = warn (InvalidResult \<lparr>result_type = t, result_start = s0, result_end = e0,
                                           result_extras = extras\<rparr>) st"
    by (auto simp: save_result_def Let_def split: if_splits sum.splits)
  with ok None show ?thesis by (simp add: all_ok_warn)
next
  case (Some r)
  note f = save_result_Some[OF sr[unfolded Some]]
  have ok_r: "span_ok text r"
  proof (cases "t \<in> set non_spaced_types")
    case True
    with f have rs: "remove_spaces text s0 e0 = Inr (result_start r, result_end r)" by simp
    from remove_spaces_result[OF rs] obtain c where
      "s0 \<le> result_start r" "py_getitem text (result_end r - 1) = Inr c" by blast
    with py_getitem_Inr_range[of "text" "result_end r - 1" c] f True
    show ?thesis by (simp add: span_ok_def)
  next
    case False
    with b have e0: "e0 \<le> int (length text)" by simp
    show ?thesis
    proof (cases "t \<in> set paragraph_types")
      case True
      with f have se: "result_start r = fst (get_line text s0)" "result_end r = snd (get_line text e0)"
        by auto
      have "fst (get_line text s0) \<le> s0" using get_line_fst(2)[of s0 "text"] f by simp
      moreover have "e0 \<le> snd (get_line text e0)" using get_line_snd_ge[of e0 "text"] f e0 by simp
      ultimately show ?thesis
        using f se get_line_fst(1)[of "text" s0] get_line_snd[of "text" e0]
        by (simp add: span_ok_def)
    next
      case np: False
      with False f e0 show ?thesis by (simp add: span_ok_def)
    qed
  qed
  moreover from f have "mapper_results st' = mapper_results st @ [r]" by simp
  ultimately show ?thesis using ok Some by (auto simp: all_ok_def span_ok_def)
qed

lemma walk_one_with_cases:
  assumes "walk_one_with w text index entry st = Inr (x, st')"
  shows "(\<exists>t. x = None \<and> st' = warn (UnknownType t) st)
       \<or> (\<exists>k fn c start e extras st1.
             map_of (types w text) k = Some fn
             \<and> fn index c st = Inr ((start, e, extras), st1)
             \<and> save_result text k start e extras st1 = Inr (x, st'))"
  using assms
  by (auto simp: walk_one_with_def split: sum.splits json.splits option.splits)

lemma safe_pure:
  "(\<And>index c st r st'. f index c st = Inr (r, st') \<Longrightarrow> st' = st) \<Longrightarrow> safe_handler text f"
  unfolding safe_handler_def by blast

lemma lift_Inr: "lift r st = Inr (sp, st') \<Longrightarrow> r = Inr sp \<and> st' = st"
  by (cases r) (auto simp: lift_def)

lemma good_lift:
  "(\<And>index c s e x. p index c = Inr (s, e, x) \<Longrightarrow> index \<le> int (length text) \<Longrightarrow> e \<le> int (length text))
   \<Longrightarrow> good_handler text (\<lambda>index c. lift (p index c))"
  unfolding good_handler_def
proof (intro allI impI)
  fix index c st s e x st'
  assume p: "\<And>index c s e x. p index c = Inr (s, e, x) \<Longrightarrow> index \<le> int (length text) \<Longrightarrow> e \<le> int (length text)"
    and i: "index \<le> int (length text)" and ok: "all_ok text st"
    and r: "lift (p index c) st = Inr ((s, e, x), st')"
  from lift_Inr[OF r] have "p index c = Inr (s, e, x)" "st' = st" by auto
  with p[OF _ i] ok show "all_ok text st' \<and> e \<le> int (length text)" by simp
qed

lemma on_second_Inr:
  "on_second f index args st = Inr r \<Longrightarrow> \<exists>a. f index a st = Inr r"
  by (auto simp: on_second_def split: sum.splits)

lemma good_on_second:
  assumes f: "good_handler text f"
  shows "good_handler text (on_second f)"
  unfolding good_handler_def
proof (intro allI impI)
  fix index c st s e x st'
  assume i: "index \<le> int (length text)" and ok: "all_ok text st"
    and r: "on_second f index c st = Inr ((s, e, x), st')"
  from on_second_Inr[OF r] obtain a where "f index a st = Inr ((s, e, x), st')" by blast
  from good_handlerD[OF f this i ok] show "all_ok text st' \<and> e \<le> int (length text)" .
qed

lemma safe_on_second:
  assumes f: "safe_handler text f"
  shows "safe_handler text (on_second f)"
  unfolding safe_handler_def
proof (intro allI impI)
  fix index c st s e x st'
  assume i: "index \<le> int (length text)" and ok: "all_ok text st"
    and r: "on_second f index c st = Inr ((s, e, x), st')"
  from on_second_Inr[OF r] obtain a where "f index a st = Inr ((s, e, x), st')" by blast
  from safe_handlerD[OF f this i ok] show "all_ok text st'" .
qed

lemma good_entry_str: "good_handler text (\<lambda>index string. lift (walk_str text index string))"
  by (rule good_lift) (rule walk_str_end)

lemma good_entry_rule: "good_handler text (\<lambda>index args. lift (walk_horizontal_rule text index))"
  by (rule good_lift) (rule walk_horizontal_rule_end)

lemma good_entry_null: "good_handler text (\<lambda>index args. lift (walk_nothing index))"
  by (rule good_lift) (simp add: walk_nothing_def)

lemma good_entry_spaces: "good_handler text (\<lambda>index args. lift (walk_spaces text index))"
  by (rule good_lift) (drule walk_spaces_bounds, simp)

lemma good_entry_code_block:
  "good_handler text (\<lambda>index args st.
     case unpack2 TypeError args of
       Inl e \<Rightarrow> Inl e
     | Inr (attr, string) \<Rightarrow> lift (walk_code_block text index attr string) st)"
  unfolding good_handler_def
proof (intro allI impI)
  fix index c st s e x st'
  assume i: "index \<le> int (length text)" and ok: "all_ok text st"
    and r: "(case unpack2 TypeError c of Inl e \<Rightarrow> Inl e
             | Inr (attr, string) \<Rightarrow> lift (walk_code_block text index attr string) st)
            = Inr ((s, e, x), st')"
  from r obtain attr string where l: "lift (walk_code_block text index attr string) st = Inr ((s, e, x), st')"
    by (auto split: sum.splits prod.splits)
  from lift_Inr[OF l] have "walk_code_block text index attr string = Inr (s, e, x)" "st' = st" by auto
  with walk_code_block_end[OF _ i] ok show "all_ok text st' \<and> e \<le> int (length text)" by simp
qed

lemma good_entry_header:
  assumes w: "good_walker text w"
  shows "good_handler text (\<lambda>index args st.
     case unpack3 TypeError args of
       Inl e \<Rightarrow> Inl e
     | Inr (level, attr, entries) \<Rightarrow> walk_header w text index level attr entries st)"
  unfolding good_handler_def
proof (intro allI impI)
  fix index c st s e x st'
  assume i: "index \<le> int (length text)" and ok: "all_ok text st"
    and r: "(case unpack3 TypeError c of Inl e \<Rightarrow> Inl e
             | Inr (level, attr, entries) \<Rightarrow> walk_header w text index level attr entries st)
            = Inr ((s, e, x), st')"
  from r obtain level attr entries where
    "walk_header w text index level attr entries st = Inr ((s, e, x), st')"
    by (auto split: sum.splits prod.splits)
  from good_handlerD[OF good_header[OF w] this i ok] show "all_ok text st' \<and> e \<le> int (length text)" .
qed

lemma good_entry_table:
  assumes w: "good_walker text w"
  shows "good_handler text (\<lambda>index args st.
     case unpack5 TypeError args of
       Inl e \<Rightarrow> Inl e
     | Inr (caption, alignment, column_widths, header, rows) \<Rightarrow>
         walk_table w text index caption alignment column_widths header rows st)"
  unfolding good_handler_def
proof (intro allI impI)
  fix index c st s e x st'
  assume i: "index \<le> int (length text)" and ok: "all_ok text st"
    and r: "(case unpack5 TypeError c of Inl e \<Rightarrow> Inl e
             | Inr (caption, alignment, column_widths, header, rows) \<Rightarrow>
                 walk_table w text index caption alignment column_widths header rows st)
            = Inr ((s, e, x), st')"
  from r obtain caption alignment column_widths header rows where
    "walk_table w text index caption alignment column_widths header rows st = Inr ((s, e, x), st')"
    by (auto split: sum.splits prod.splits)
  from good_handlerD[OF good_table[OF w] this i ok] show "all_ok text st' \<and> e \<le> int (length text)" .
qed

lemma good_entry_div:
  assumes w: "good_walker text w"
  shows "good_handler text (\<lambda>index args st.
     case unpack2 TypeError args of
       Inl e \<Rightarrow> Inl e
     | Inr (attr, entries) \<Rightarrow> walk_div w text index attr entries st)"
  unfolding good_handler_def
proof (intro allI impI)
  fix index c st s e x st'
  assume i: "index \<le> int (length text)" and ok: "all_ok text st"
    and r: "(case unpack2 TypeError c of Inl e \<Rightarrow> Inl e
             | Inr (attr, entries) \<Rightarrow> walk_div w text index attr entries st)
            = Inr ((s, e, x), st')"
  from r obtain attr entries where "walk_div w text index attr entries st = Inr ((s, e, x), st')"
    by (auto split: sum.splits prod.splits)
  from good_handlerD[OF good_div[OF w] this i ok] show "all_ok text st' \<and> e \<le> int (length text)" .
qed

lemma safe_entry_link:
  assumes w: "good_walker text w"
  shows "safe_handler text (\<lambda>index args st.
     case unpack3 TypeError args of
       Inl e \<Rightarrow> Inl e
     | Inr (attr, entries, target) \<Rightarrow> walk_link w text index attr entries target st)"
  unfolding safe_handler_def
proof (intro allI impI)
  fix index c st s e x st'
  assume i: "index \<le> int (length text)" and ok: "all_ok text st"
    and r: "(case unpack3 TypeError c of Inl e \<Rightarrow> Inl e
             | Inr (attr, entries, target) \<Rightarrow> walk_link w text index attr entries target st)
            = Inr ((s, e, x), st')"
  from r obtain attr entries target where
    "walk_link w text index attr entries target st = Inr ((s, e, x), st')"
    by (auto split: sum.splits prod.splits)
  from safe_handlerD[OF safe_link[OF w] this i ok] show "all_ok text st'" .
qed

lemma safe_entry_cite:
  "safe_handler text (\<lambda>index args st.
     case unpack2 TypeError args of
       Inl e \<Rightarrow> Inl e
     | Inr (citations, bibliography_entries) \<Rightarrow>
         lift (walk_cite text index citations bibliography_entries) st)"
  by (rule safe_pure) (auto simp: lift_def split: sum.splits prod.splits)

lemma safe_entry_math:
  "safe_handler text (\<lambda>index args st.
     case unpack2 TypeError args of
       Inl e \<Rightarrow> Inl e
     | Inr (math_type, string) \<Rightarrow> lift (walk_math text index math_type string) st)"
  by (rule safe_pure) (auto simp: lift_def split: sum.splits prod.splits)

lemma safe_entry_lift: "safe_handler text (\<lambda>index c. lift (p index c))"
  by (rule safe_pure) (auto simp: lift_def split: sum.splits)

lemma block_types_good:
  "good_walker text w \<Longrightarrow> list_all (\<lambda>(k, fn). good_handler text fn) (block_types w text)"
  by (simp add: block_types_def good_multiple0 good_nested_with good_entry_code_block
        good_on_second good_entry_str good_list good_pairs good_entry_header good_entry_rule
        good_entry_table good_entry_div good_entry_null)

lemma inline_types_ok:
  "good_walker text w \<Longrightarrow>
   list_all (\<lambda>(k, fn). safe_handler text fn \<and> (k \<notin> set non_spaced_types \<longrightarrow> good_handler text fn))
     (inline_types w text)"
  by (simp add: inline_types_def non_spaced_types_def ustr_simps safe_entry_lift safe_multiple
        safe_small_caps safe_on_second safe_entry_cite safe_entry_math safe_entry_link safe_note
        good_entry_spaces)

lemma types_classified:
  assumes w: "good_walker text w" and m: "map_of (types w text) k = Some fn"
  shows "safe_handler text fn \<and> (k \<notin> set non_spaced_types \<longrightarrow> good_handler text fn)"
proof -
  from map_of_SomeD[OF m] have "(k, fn) \<in> set (block_types w text) \<or> (k, fn) \<in> set (inline_types w text)"
    by (simp add: types_def)
  then show ?thesis
  proof
    assume "(k, fn) \<in> set (block_types w text)"
    with block_types_good[OF w] have "good_handler text fn" by (auto simp: list_all_iff)
    then show ?thesis by (simp add: good_imp_safe)
  next
    assume "(k, fn) \<in> set (inline_types w text)"
    with inline_types_ok[OF w] show ?thesis by (auto simp: list_all_iff)
  qed
qed

lemma good_walk_one_with:
  assumes w: "good_walker text w"
  shows "good_walker text (walk_one_with w text)"
  unfolding good_walker_def
proof (intro allI impI)
  fix index entry st x st'
  assume i: "index \<le> int (length text)" and ok: "all_ok text st"
    and r: "walk_one_with w text index entry st = Inr (x, st')"
  from walk_one_with_cases[OF r]
  show "all_ok text st' \<and> (\<forall>r. x = Some r \<longrightarrow> result_end r \<le> int (length text))"
  proof (elim disjE exE conjE)
    fix t assume "x = None" "st' = warn (UnknownType t) st"
    with ok show ?thesis by (simp add: all_ok_warn)
  next
    fix k fn c start e extras st1
    assume m: "map_of (types w text) k = Some fn"
      and f: "fn index c st = Inr ((start, e, extras), st1)"
      and s: "save_result text k start e extras st1 = Inr (x, st')"
    note cl = types_classified[OF w m]
    from cl have sf: "safe_handler text fn" by simp
    from safe_handlerD[OF sf f i ok] have ok1: "all_ok text st1" .
    have "k \<in> set non_spaced_types \<or> e \<le> int (length text)"
    proof (cases "k \<in> set non_spaced_types")
      case True
      then show ?thesis by simp
    next
      case False
      with cl have gf: "good_handler text fn" by simp
      from good_handlerD[OF gf f i ok] show ?thesis by simp
    qed
    from save_result_ok[OF s ok1 this] show ?thesis .
  qed
qed

lemma good_walk_one: "good_walker text (walk_one depth text)"
proof (induction depth)
  case 0
  show ?case by (simp add: good_walker_def)
next
  case (Suc d)
  then show ?case by (simp add: good_walk_one_with)
qed

lemma walk_results_ok:
  assumes "walk depth text converted = Inr rs"
  shows "\<forall>r \<in> set rs. span_ok text r"
proof -
  from assms obtain blocks sp st where
    m: "walk_multiple (walk_one depth text) text 0 blocks 0 \<lparr>mapper_results = [], mapper_warnings = []\<rparr>
        = Inr (sp, st)" and rs: "rs = mapper_results st"
    by (auto simp: walk_def split: sum.splits)
  obtain s e x where sp: "sp = (s, e, x)" by (cases sp)
  have "all_ok text \<lparr>mapper_results = [], mapper_warnings = []\<rparr>" by (simp add: all_ok_def)
  from walk_multiple_ok[OF good_walk_one m[unfolded sp] _ this] have "all_ok text st" by simp
  with rs show ?thesis by (simp add: all_ok_def)
qed

lemma trimmed_span:
  assumes rs: "remove_spaces text s0 e0 = Inr (s, e)" and s0: "0 \<le> s0"
  shows "s0 \<le> s \<and> e \<le> e0 \<and> s < int (length text) \<and> e \<le> int (length text)
       \<and> ((\<exists>j. s0 \<le> j \<and> j < e0 \<and> j < int (length text) \<and> \<not> isspace (text ! nat j)) \<longrightarrow> s < e)"
proof -
  from rs have a: "advance_while_space text s0 = Inr s" and r: "retreat_while_space text e0 = Inr e"
    by (auto simp: remove_spaces_def split: sum.splits)
  from remove_spaces_result[OF rs] obtain c d where
    b: "s0 \<le> s" "e \<le> e0" "py_getitem text s = Inr c" "py_getitem text (e - 1) = Inr d" by blast
  from py_getitem_Inr_range[OF b(3)] py_getitem_Inr_range[OF b(4)]
  have lt: "s < int (length text)" "e \<le> int (length text)" by auto
  have "s < e" if j: "s0 \<le> j" "j < e0" "j < int (length text)" "\<not> isspace (text ! nat j)" for j
  proof -
    have g: "py_getitem text j = Inr (text ! nat j)"
      using j s0 by (simp add: py_getitem_in_range)
    have "s \<le> j"
    proof (rule ccontr)
      assume "\<not> s \<le> j"
      then have "j < s" by simp
      from advance_while_space_skips[OF a j(1) this] g j(4) show False by simp
    qed
    moreover have "j < e"
    proof (rule ccontr)
      assume "\<not> j < e"
      then have "e \<le> j" by simp
      from retreat_while_space_skips[OF r this j(2)] g j(4) show False by simp
    qed
    ultimately show ?thesis by simp
  qed
  with b lt show ?thesis by blast
qed

text \<open>
  What does hold of the appended results, whatever the tree: every result a walk appends
  has a non-negative start and an end no greater than the length of the text, and its
  start is strictly less than its end unless its kind is a non-spaced one. A result of a
  non-spaced kind comes from a span that passed the validity check by removing the
  whitespace at both ends; its start is strictly less than its end whenever that span
  holds a non-whitespace character of the text.
\<close>

theorem appended_spans_in_bounds:
  "(walk depth text converted = Inr rs \<longrightarrow>
      (\<forall>r \<in> set rs. 0 \<le> result_start r \<and> result_end r \<le> int (length text)
                    \<and> (result_type r \<notin> set non_spaced_types \<longrightarrow> result_start r < result_end r)))
   \<and> (walk_one depth text index entry st = Inr (Some r, st') \<and> result_type r \<in> set non_spaced_types \<longrightarrow>
        (\<exists>s0 e0. 0 \<le> s0 \<and> s0 < e0
            \<and> remove_spaces text s0 e0 = Inr (result_start r, result_end r)
            \<and> s0 \<le> result_start r \<and> result_end r \<le> e0
            \<and> result_start r < int (length text) \<and> result_end r \<le> int (length text)
            \<and> ((\<exists>j. s0 \<le> j \<and> j < e0 \<and> j < int (length text) \<and> \<not> isspace (text ! nat j))
                 \<longrightarrow> result_start r < result_end r)))"
proof (intro conjI impI)
  assume "walk depth text converted = Inr rs"
  from walk_results_ok[OF this]
  show "\<forall>r \<in> set rs. 0 \<le> result_start r \<and> result_end r \<le> int (length text)
                    \<and> (result_type r \<notin> set non_spaced_types \<longrightarrow> result_start r < result_end r)"
    by (simp add: span_ok_def)
next
  assume a: "walk_one depth text index entry st = Inr (Some r, st') \<and> result_type r \<in> set non_spaced_types"
  from walk_one_Some[of depth "text" index entry st r st'] a obtain k s0 e0 extras st1 where
    sr: "save_result text k s0 e0 extras st1 = Inr (Some r, st')" by blast
  from save_result_Some[OF sr] a have
    v: "0 \<le> s0" "s0 < e0" and rs: "remove_spaces text s0 e0 = Inr (result_start r, result_end r)"
    by auto
  from trimmed_span[OF rs v(1)] v rs
  show "\<exists>s0 e0. 0 \<le> s0 \<and> s0 < e0
            \<and> remove_spaces text s0 e0 = Inr (result_start r, result_end r)
            \<and> s0 \<le> result_start r \<and> result_end r \<le> e0
            \<and> result_start r < int (length text) \<and> result_end r \<le> int (length text)
            \<and> ((\<exists>j. s0 \<le> j \<and> j < e0 \<and> j < int (length text) \<and> \<not> isspace (text ! nat j))
                 \<longrightarrow> result_start r < result_end r)"
    by blast
qed

end
